theory Spec2Isabelle
  imports Main "HOL-Library.Word" "HOL-Library.AList" "HOL-Library.Sublist" "HOL-Library.Multiset"
begin

unbundle bit_operations_syntax

section \<open>Handles\<close>

text \<open>
  A \<open>handle_t\<close> is eight bytes that \<open>as_integer\<close> reads as one 64-bit integer; node
  identifiers (\<open>id_t\<close>) and path identifiers are signed 64-bit integers. All three are
  64-bit words here; the signed order \<open><s\<close> is used wherever the source compares
  identifiers.

  \<open>number_bool_packing\<close> comes from the handle graph library
  (\<open>handlegraph/util.hpp\<close>): the identifier sits in the upper 63 bits, the orientation
  in the lowest bit. \<open>pack\<close> asserts \<open>number < 2^63\<close>; the shift below loses the top bit
  of a larger number, as the library does when assertions are compiled out.
\<close>

type_synonym handle_t = "64 word"
type_synonym id_t = "64 word"

definition pack :: "64 word \<Rightarrow> bool \<Rightarrow> handle_t" where
  "pack number bit_val = push_bit 1 number OR (if bit_val then 1 else 0)"

definition unpack_number :: "handle_t \<Rightarrow> 64 word" where
  "unpack_number h = drop_bit 1 h"

definition unpack_bit :: "handle_t \<Rightarrow> bool" where
  "unpack_bit h = (h AND 1 \<noteq> 0)"

definition toggle_bit :: "handle_t \<Rightarrow> handle_t" where
  "toggle_bit h = h XOR 1"

definition get_handle :: "id_t \<Rightarrow> bool \<Rightarrow> handle_t" where
  "get_handle node_id is_reverse = pack node_id is_reverse"

definition get_id :: "handle_t \<Rightarrow> id_t" where
  "get_id h = unpack_number h"

definition get_is_reverse :: "handle_t \<Rightarrow> bool" where
  "get_is_reverse h = unpack_bit h"

definition flip :: "handle_t \<Rightarrow> handle_t" where
  "flip h = toggle_bit h"

text \<open>\<open>forward\<close> is the interface's helper: the forward handle of the same node.\<close>

definition forward :: "handle_t \<Rightarrow> handle_t" where
  "forward h = (if get_is_reverse h then flip h else h)"

section \<open>Sequences\<close>

text \<open>
  Modelled from the spec: \<open>reverse_complement\<close> is declared in \<open>utility.hpp\<close>, which
  is not among the sources. It reverses the sequence and complements every base
  (A with T, C with G); other characters are kept.
\<close>

definition complement :: "char \<Rightarrow> char" where
  "complement c =
     (if c = CHR ''A'' then CHR ''T''
      else if c = CHR ''T'' then CHR ''A''
      else if c = CHR ''C'' then CHR ''G''
      else if c = CHR ''G'' then CHR ''C''
      else c)"

definition reverse_complement :: "string \<Rightarrow> string" where
  "reverse_complement s = map complement (rev s)"

text \<open>
  \<open>std::string::substr (pos, len)\<close> throws \<open>out_of_range\<close> when \<open>pos\<close> is beyond the
  end, and otherwise returns at most \<open>len\<close> characters from \<open>pos\<close>.
\<close>

text \<open>
  The ways a call can fail to return normally: \<open>OutOfRange\<close> is the exception
  \<open>std::out_of_range\<close> (\<open>at\<close> on a missing key, \<open>substr\<close> beyond the end);
  \<open>InvalidPointer\<close> is a read or write through \<open>nullptr\<close> or through a pointer to a
  deleted \<open>path_mapping_t\<close>; \<open>NoReturn\<close> is a walk along \<open>next\<close> pointers that never
  reaches \<open>nullptr\<close>.
\<close>

datatype error = OutOfRange | InvalidPointer | NoReturn

definition and_then :: "error + 'a \<Rightarrow> ('a \<Rightarrow> error + 'b) \<Rightarrow> error + 'b" where
  "and_then m f = (case m of Inl e \<Rightarrow> Inl e | Inr x \<Rightarrow> f x)"

definition substr :: "string \<Rightarrow> nat \<Rightarrow> nat \<Rightarrow> error + string" where
  "substr s pos len = (if length s < pos then Inl OutOfRange else Inr (take len (drop pos s)))"

text \<open>\<open>size_t\<close> subtraction: the result wraps around modulo \<open>2^64\<close>.\<close>

definition size_sub :: "nat \<Rightarrow> nat \<Rightarrow> nat" where
  "size_sub a b = (a + 2 ^ 64 - b mod 2 ^ 64) mod 2 ^ 64"

section \<open>The graph state\<close>

text \<open>
  A \<open>path_mapping_t\<close> lives on the free store and is referred to by pointer; the
  pointers are addresses into the store \<open>mappings\<close>, and \<open>None\<close> is \<open>nullptr\<close>.
\<close>

type_synonym addr = nat

record node_t =
  sequence :: string
  left_edges :: "handle_t list"
  right_edges :: "handle_t list"

record path_mapping_t =
  m_handle :: handle_t
  m_path_id :: "64 word"
  m_prev :: "addr option"
  m_next :: "addr option"

record path_t =
  p_head :: "addr option"
  p_tail :: "addr option"
  p_path_id :: "64 word"
  p_count :: nat
  p_name :: string

text \<open>
  The free store of \<open>path_mapping_t\<close> objects: \<open>cells\<close> holds the live objects,
  \<open>next_free\<close> is the address the next \<open>new\<close> returns. Addresses are not reused.
\<close>

record store =
  cells :: "addr \<Rightarrow> path_mapping_t option"
  next_free :: addr

text \<open>
  Every \<open>hash_map\<close> of the source is an association list: the list holds the entries of
  the table, and \<open>map_of\<close> is the lookup. The place of an entry in the list has no
  meaning. The order in which \<open>begin ()\<close> to \<open>end ()\<close> hands out the entries of a table is
  decided by \<open>hash_map\<close>, which is not among the sources: every function that walks a
  table takes that order as a parameter \<open>table_order\<close>, the function from the entries of
  a table to the sequence in which its iterator yields them.
\<close>

record HashGraph =
  max_id :: id_t
  min_id :: id_t
  next_path_id :: "64 word"
  graph :: "(id_t \<times> node_t) list"
  path_id :: "(string \<times> 64 word) list"
  paths :: "(64 word \<times> path_t) list"
  occurrences :: "(id_t \<times> addr list) list"
  mappings :: store

definition new_node :: "string \<Rightarrow> node_t" where
  "new_node s = \<lparr>sequence = s, left_edges = [], right_edges = []\<rparr>"

text \<open>\<open>m[k]\<close> on a hash map: a missing key is inserted with the default value.\<close>

definition touch :: "'k \<Rightarrow> 'v \<Rightarrow> ('k \<times> 'v) list \<Rightarrow> ('k \<times> 'v) list" where
  "touch k dflt m = (if map_of m k = None then m @ [(k, dflt)] else m)"

definition lookup_default :: "'k \<Rightarrow> 'v \<Rightarrow> ('k \<times> 'v) list \<Rightarrow> 'v" where
  "lookup_default k dflt m = (case map_of m k of None \<Rightarrow> dflt | Some v \<Rightarrow> v)"

text \<open>\<open>m[k] = f (m[k])\<close>: an update in place of the (possibly fresh) entry.\<close>

definition modify :: "'k \<Rightarrow> 'v \<Rightarrow> ('v \<Rightarrow> 'v) \<Rightarrow> ('k \<times> 'v) list \<Rightarrow> ('k \<times> 'v) list" where
  "modify k dflt f m = AList.update k (f (lookup_default k dflt m)) m"

text \<open>
  The state of a new graph. The member initialisers are in \<open>hash_graph.hpp\<close>, which is
  not among the sources; the values are the ones \<open>clear\<close> assigns.
\<close>

definition max_int64 :: "64 word" where
  "max_int64 = 0x7FFFFFFFFFFFFFFF"

definition empty_graph :: HashGraph where
  "empty_graph = \<lparr>max_id = 0, min_id = max_int64, next_path_id = 1, graph = [],
     path_id = [], paths = [], occurrences = [],
     mappings = \<lparr>cells = (\<lambda>_. None), next_free = 0\<rparr>\<rparr>"

definition has_node :: "HashGraph \<Rightarrow> id_t \<Rightarrow> bool" where
  "has_node g node_id = (map_of (graph g) node_id \<noteq> None)"

definition max_id_t :: "id_t \<Rightarrow> id_t \<Rightarrow> id_t" where
  "max_id_t a b = (if a <s b then b else a)"

definition min_id_t :: "id_t \<Rightarrow> id_t \<Rightarrow> id_t" where
  "min_id_t a b = (if b <s a then b else a)"

section \<open>Nodes and edges\<close>

definition create_handle :: "string \<Rightarrow> id_t \<Rightarrow> HashGraph \<Rightarrow> HashGraph \<times> handle_t" where
  "create_handle s node_id g =
     (g\<lparr>graph := AList.update node_id (new_node s) (graph g),
        max_id := max_id_t (max_id g) node_id,
        min_id := min_id_t (min_id g) node_id\<rparr>,
      get_handle node_id False)"

definition create_handle_next :: "string \<Rightarrow> HashGraph \<Rightarrow> HashGraph \<times> handle_t" where
  "create_handle_next s g = create_handle s (max_id g + 1) g"

definition push_left :: "handle_t \<Rightarrow> node_t \<Rightarrow> node_t" where
  "push_left h n = n\<lparr>left_edges := left_edges n @ [h]\<rparr>"

definition push_right :: "handle_t \<Rightarrow> node_t \<Rightarrow> node_t" where
  "push_right h n = n\<lparr>right_edges := right_edges n @ [h]\<rparr>"

definition create_edge :: "handle_t \<Rightarrow> handle_t \<Rightarrow> HashGraph \<Rightarrow> HashGraph" where
  "create_edge left right g =
     (let g1 = g\<lparr>graph := modify (get_id left) (new_node [])
                   (if get_is_reverse left then push_left right else push_right right) (graph g)\<rparr>
      in if left \<noteq> flip right
         then g1\<lparr>graph := modify (get_id right) (new_node [])
                   (if get_is_reverse right then push_right (flip left) else push_left (flip left))
                   (graph g1)\<rparr>
         else g1)"

definition get_length :: "HashGraph \<Rightarrow> handle_t \<Rightarrow> error + nat" where
  "get_length g h =
     (case map_of (graph g) (get_id h) of
        None \<Rightarrow> Inl OutOfRange
      | Some n \<Rightarrow> Inr (length (sequence n)))"

definition get_sequence :: "HashGraph \<Rightarrow> handle_t \<Rightarrow> error + string" where
  "get_sequence g h =
     (case map_of (graph g) (get_id h) of
        None \<Rightarrow> Inl OutOfRange
      | Some n \<Rightarrow> Inr (if get_is_reverse h then reverse_complement (sequence n) else sequence n))"

section \<open>Iteration\<close>

text \<open>
  A visitor may have effects of its own (the tests count and record what they see), so
  it is a function on a visitor state \<open>'s\<close> that returns whether to keep going. The loop
  \<open>for (it = begin; it != end && keep_going; it++) keep_going = iteratee (*it)\<close>:
\<close>

fun iterate_while :: "('a \<Rightarrow> 's \<Rightarrow> bool \<times> 's) \<Rightarrow> 'a list \<Rightarrow> 's \<Rightarrow> bool \<times> 's" where
  "iterate_while f [] s = (True, s)"
| "iterate_while f (x # xs) s =
     (case f x s of (keep_going, s') \<Rightarrow>
        if keep_going then iterate_while f xs s' else (False, s'))"

definition follow_edges_impl ::
  "HashGraph \<Rightarrow> handle_t \<Rightarrow> bool \<Rightarrow> (handle_t \<Rightarrow> 's \<Rightarrow> bool \<times> 's) \<Rightarrow> 's \<Rightarrow> error + bool \<times> 's" where
  "follow_edges_impl g h go_left iteratee s =
     (case map_of (graph g) (get_id h) of
        None \<Rightarrow> Inl OutOfRange
      | Some n \<Rightarrow>
          Inr (iterate_while (\<lambda>e. iteratee (if go_left then flip e else e))
                 (if get_is_reverse h \<noteq> go_left then left_edges n else right_edges n) s))"

text \<open>
  \<open>for_each_handle_impl\<close> in sequential mode (\<open>parallel = false\<close>); the OpenMP branch is
  not modelled.
\<close>

definition for_each_handle_impl ::
  "((id_t \<times> node_t) list \<Rightarrow> (id_t \<times> node_t) list) \<Rightarrow> HashGraph \<Rightarrow>
     (handle_t \<Rightarrow> 's \<Rightarrow> bool \<times> 's) \<Rightarrow> 's \<Rightarrow> bool \<times> 's" where
  "for_each_handle_impl table_order g iteratee s =
     iterate_while (\<lambda>node_id. iteratee (get_handle node_id False))
       (map fst (table_order (graph g))) s"

text \<open>
  To speak about what a visitor was shown, a visitor is wrapped so that it also records
  each handle it receives together with its answer.
\<close>

definition traced :: "('a \<Rightarrow> 's \<Rightarrow> bool \<times> 's) \<Rightarrow> 'a \<Rightarrow> 's \<times> ('a \<times> bool) list \<Rightarrow> bool \<times> 's \<times> ('a \<times> bool) list" where
  "traced f x st =
     (case st of (s, seen) \<Rightarrow> case f x s of (keep_going, s') \<Rightarrow> (keep_going, s', seen @ [(x, keep_going)]))"

section \<open>Removing and redirecting adjacency entries\<close>

text \<open>
  The loop \<open>for (x : list) if (P x) { x = list.back(); list.pop_back(); break; }\<close>: the
  first match is overwritten by the last element, which is then dropped.
\<close>

fun remove_first_where :: "('a \<Rightarrow> bool) \<Rightarrow> 'a list \<Rightarrow> 'a list" where
  "remove_first_where P [] = []"
| "remove_first_where P (x # xs) =
     (if P x then (if xs = [] then [] else last xs # butlast xs)
      else x # remove_first_where P xs)"

text \<open>The loop \<open>for (x : list) if (P x) { x = f x; break; }\<close>.\<close>

fun replace_first_where :: "('a \<Rightarrow> bool) \<Rightarrow> ('a \<Rightarrow> 'a) \<Rightarrow> 'a list \<Rightarrow> 'a list" where
  "replace_first_where P f [] = []"
| "replace_first_where P f (x # xs) =
     (if P x then f x # xs else x # replace_first_where P f xs)"

text \<open>
  The list on the node of \<open>next\<close> that holds the entry pointing back:
  \<open>get_is_reverse (next) ? graph[get_id (next)].right_edges : graph[get_id (next)].left_edges\<close>.
\<close>

definition on_bwd_edge_list :: "handle_t \<Rightarrow> (handle_t list \<Rightarrow> handle_t list) \<Rightarrow>
    (id_t \<times> node_t) list \<Rightarrow> (id_t \<times> node_t) list" where
  "on_bwd_edge_list next f gr =
     modify (get_id next) (new_node [])
       (\<lambda>n. if get_is_reverse next then n\<lparr>right_edges := f (right_edges n)\<rparr>
            else n\<lparr>left_edges := f (left_edges n)\<rparr>) gr"

text \<open>
  \<open>destroy_handle\<close>. The two range-for loops run over the node's own lists while the
  body shrinks lists of the neighbours. When an entry is a self-loop the body shrinks
  one of the node's own lists: the left loop then still reads the entries it started
  with (it keeps its end iterator, and the slots behind the current one are not
  overwritten), and the right loop starts from the right list as the left loop left it.
\<close>

definition destroy_handle :: "handle_t \<Rightarrow> HashGraph \<Rightarrow> HashGraph" where
  "destroy_handle h g =
     (let node_id = get_id h;
          drop = (\<lambda>next. on_bwd_edge_list next (remove_first_where (\<lambda>bwd. get_id bwd = node_id)));
          gr0 = touch node_id (new_node []) (graph g);
          gr1 = fold drop (left_edges (lookup_default node_id (new_node []) gr0)) gr0;
          gr2 = fold drop (right_edges (lookup_default node_id (new_node []) gr1)) gr1
      in g\<lparr>graph := AList.delete node_id gr2,
           occurrences := AList.delete node_id (occurrences g)\<rparr>)"

definition destroy_edge :: "handle_t \<Rightarrow> handle_t \<Rightarrow> HashGraph \<Rightarrow> HashGraph" where
  "destroy_edge left right g =
     (let gr1 = modify (get_id left) (new_node [])
                  (\<lambda>n. if get_is_reverse left
                        then n\<lparr>left_edges := remove_first_where (\<lambda>next. next = right) (left_edges n)\<rparr>
                        else n\<lparr>right_edges := remove_first_where (\<lambda>next. next = right) (right_edges n)\<rparr>)
                  (graph g);
          gr2 = on_bwd_edge_list right (remove_first_where (\<lambda>prev. prev = flip left)) gr1
      in g\<lparr>graph := gr2\<rparr>)"

section \<open>Paths on the free store\<close>

text \<open>
  A default-constructed \<open>path_t\<close>. Its member initialisers are in \<open>hash_graph.hpp\<close>; the
  values are the ones the move constructor leaves in the object it moved from.
\<close>

definition default_path :: path_t where
  "default_path = \<lparr>p_head = None, p_tail = None, p_path_id = 0, p_count = 0, p_name = []\<rparr>"

definition new_path :: "string \<Rightarrow> 64 word \<Rightarrow> path_t" where
  "new_path name pid = default_path\<lparr>p_name := name, p_path_id := pid\<rparr>"

definition deref :: "store \<Rightarrow> addr \<Rightarrow> error + path_mapping_t" where
  "deref st a = (case cells st a of None \<Rightarrow> Inl InvalidPointer | Some m \<Rightarrow> Inr m)"

text \<open>A write through a pointer: \<open>a->field = ...\<close>.\<close>

definition update_cell :: "addr \<Rightarrow> (path_mapping_t \<Rightarrow> path_mapping_t) \<Rightarrow> store \<Rightarrow> error + store" where
  "update_cell a f st =
     (case cells st a of
        None \<Rightarrow> Inl InvalidPointer
      | Some m \<Rightarrow> Inr (st\<lparr>cells := (cells st)(a \<mapsto> f m)\<rparr>))"

text \<open>\<open>new path_mapping_t (handle, path_id)\<close>: both links start as \<open>nullptr\<close>.\<close>

definition new_mapping :: "handle_t \<Rightarrow> 64 word \<Rightarrow> store \<Rightarrow> addr \<times> store" where
  "new_mapping h pid st =
     (next_free st,
      st\<lparr>cells := (cells st)(next_free st \<mapsto>
             \<lparr>m_handle = h, m_path_id = pid, m_prev = None, m_next = None\<rparr>),
         next_free := Suc (next_free st)\<rparr>)"

definition delete_mapping :: "addr \<Rightarrow> store \<Rightarrow> store" where
  "delete_mapping a st = st\<lparr>cells := (cells st)(a := None)\<rparr>"

definition push_back :: "handle_t \<Rightarrow> path_t \<Rightarrow> store \<Rightarrow> error + addr \<times> path_t \<times> store" where
  "push_back h p st =
     (case new_mapping h (p_path_id p) st of (pushing, st1) \<Rightarrow>
        (case p_tail p of
           None \<Rightarrow>
             Inr (pushing,
                  p\<lparr>p_tail := Some pushing, p_head := Some pushing, p_count := p_count p + 1\<rparr>, st1)
         | Some t \<Rightarrow>
             and_then (update_cell t (\<lambda>m. m\<lparr>m_next := Some pushing\<rparr>) st1) (\<lambda>st2.
             and_then (update_cell pushing (\<lambda>m. m\<lparr>m_prev := Some t\<rparr>) st2) (\<lambda>st3.
             Inr (pushing, p\<lparr>p_tail := Some pushing, p_count := p_count p + 1\<rparr>, st3)))))"

definition insert_after ::
  "handle_t \<Rightarrow> addr option \<Rightarrow> path_t \<Rightarrow> store \<Rightarrow> error + addr \<times> path_t \<times> store" where
  "insert_after h mapping p st =
     (case new_mapping h (p_path_id p) st of (inserting, st1) \<Rightarrow>
        (case mapping of
           Some mp \<Rightarrow>
             and_then (deref st1 mp) (\<lambda>mc.
             and_then (update_cell inserting (\<lambda>m. m\<lparr>m_next := m_next mc\<rparr>) st1) (\<lambda>st2.
             and_then (case m_next mc of
                         None \<Rightarrow> Inr st2
                       | Some nx \<Rightarrow> update_cell nx (\<lambda>m. m\<lparr>m_prev := Some inserting\<rparr>) st2) (\<lambda>st3.
             and_then (update_cell mp (\<lambda>m. m\<lparr>m_next := Some inserting\<rparr>) st3) (\<lambda>st4.
             and_then (update_cell inserting (\<lambda>m. m\<lparr>m_prev := Some mp\<rparr>) st4) (\<lambda>st5.
             Inr (inserting,
                  (if Some mp = p_tail p then p\<lparr>p_tail := Some inserting\<rparr> else p)
                    \<lparr>p_count := p_count p + 1\<rparr>,
                  st5))))))
         | None \<Rightarrow>
             (case p_head p of
                Some first \<Rightarrow>
                  and_then (update_cell inserting (\<lambda>m. m\<lparr>m_next := Some first\<rparr>) st1) (\<lambda>st2.
                  and_then (update_cell first (\<lambda>m. m\<lparr>m_prev := Some inserting\<rparr>) st2) (\<lambda>st3.
                  Inr (inserting, p\<lparr>p_head := Some inserting, p_count := p_count p + 1\<rparr>, st3)))
              | None \<Rightarrow>
                  Inr (inserting,
                       p\<lparr>p_head := Some inserting, p_tail := Some inserting,
                         p_count := p_count p + 1\<rparr>,
                       st1))))"

text \<open>
  Following \<open>next\<close> from a pointer until \<open>nullptr\<close>, as \<open>while (mapping) { ...; mapping =
  mapping->next; }\<close> does. The loop need not end on a cyclic list. The store holds at
  most \<open>next_free\<close> objects, so a walk that has taken \<open>next_free\<close> steps without
  reaching \<open>nullptr\<close> has met an object twice and goes on for ever: the walk is given
  that many steps.
\<close>

fun walk :: "store \<Rightarrow> nat \<Rightarrow> addr option \<Rightarrow> error + addr list" where
  "walk st n None = Inr []"
| "walk st 0 (Some a) = Inl NoReturn"
| "walk st (Suc n) (Some a) =
     and_then (deref st a) (\<lambda>m.
     and_then (walk st n (m_next m)) (\<lambda>rest. Inr (a # rest)))"

definition steps_from :: "store \<Rightarrow> addr option \<Rightarrow> error + addr list" where
  "steps_from st first = walk st (next_free st) first"

text \<open>The destructor \<open>~path_t\<close>: deletes every object on the way from \<open>head\<close>.\<close>

fun delete_from :: "nat \<Rightarrow> addr option \<Rightarrow> store \<Rightarrow> error + store" where
  "delete_from n None st = Inr st"
| "delete_from 0 (Some a) st = Inl NoReturn"
| "delete_from (Suc n) (Some a) st =
     and_then (deref st a) (\<lambda>m. delete_from n (m_next m) (delete_mapping a st))"

definition destroy_path_t :: "path_t \<Rightarrow> store \<Rightarrow> error + store" where
  "destroy_path_t p st = delete_from (next_free st) (p_head p) st"

text \<open>
  \<open>paths[key] = std::move (path)\<close>: the move assignment first runs the destructor on the
  path stored under the key (a default path when the key is new), then takes over
  the fields.
\<close>

definition assign_path :: "64 word \<Rightarrow> path_t \<Rightarrow> HashGraph \<Rightarrow> error + HashGraph" where
  "assign_path key p g =
     and_then (destroy_path_t (lookup_default key default_path (paths g)) (mappings g)) (\<lambda>st.
     Inr (g\<lparr>paths := AList.update key p (paths g), mappings := st\<rparr>))"

definition create_path_handle :: "string \<Rightarrow> HashGraph \<Rightarrow> error + HashGraph \<times> 64 word" where
  "create_path_handle name g =
     (let g1 = g\<lparr>path_id := AList.update name (next_path_id g) (path_id g)\<rparr>
      in and_then (assign_path (next_path_id g1) (new_path name (next_path_id g1)) g1) (\<lambda>g2.
         let g3 = g2\<lparr>next_path_id := next_path_id g2 + 1\<rparr>
         in Inr (g3, next_path_id g3 - 1)))"

definition get_occurrence_count :: "HashGraph \<Rightarrow> 64 word \<Rightarrow> error + nat" where
  "get_occurrence_count g path_handle =
     (case map_of (paths g) path_handle of
        None \<Rightarrow> Inl OutOfRange
      | Some p \<Rightarrow> Inr (p_count p))"

text \<open>An \<open>occurrence_handle_t\<close> is the pair of the path's identifier and the pointer.\<close>

definition append_occurrence ::
  "64 word \<Rightarrow> handle_t \<Rightarrow> HashGraph \<Rightarrow> error + HashGraph \<times> 64 word \<times> addr" where
  "append_occurrence path to_append g =
     and_then (push_back to_append (lookup_default path default_path (paths g)) (mappings g))
       (\<lambda>(mapping, p, st).
          Inr (g\<lparr>paths := AList.update path p (paths g),
                 mappings := st,
                 occurrences := modify (get_id to_append) [] (\<lambda>b. b @ [mapping]) (occurrences g)\<rparr>,
               path, mapping))"

text \<open>
  Modelled from the spec: \<open>for_each_occurrence_in_path\<close> is inherited from the path
  graph interface, whose source is not among the files. It visits the steps of the
  path from the first to the last: nothing for an empty path (\<open>is_empty\<close> reads the
  count through \<open>paths.at\<close>), otherwise \<open>get_first_occurrence\<close> and then
  \<open>get_next_occurrence\<close> while \<open>has_next_occurrence\<close>. The function returns the
  pointers in the order visited.
\<close>

definition occurrences_in_path :: "HashGraph \<Rightarrow> 64 word \<Rightarrow> error + addr list" where
  "occurrences_in_path g path =
     (case map_of (paths g) path of
        None \<Rightarrow> Inl OutOfRange
      | Some p \<Rightarrow>
          if p_count p = 0 then Inr []
          else (case p_head p of
                  None \<Rightarrow> Inl InvalidPointer
                | Some a \<Rightarrow> steps_from (mappings g) (Some a)))"

text \<open>The body of the visitor in \<open>destroy_path\<close>, for one step.\<close>

definition forget_occurrence :: "store \<Rightarrow> addr \<Rightarrow> (id_t \<times> addr list) list \<Rightarrow> error + (id_t \<times> addr list) list" where
  "forget_occurrence st mapping occs =
     and_then (deref st mapping) (\<lambda>m.
     Inr (modify (get_id (m_handle m)) [] (remove_first_where (\<lambda>x. x = mapping)) occs))"

fun forget_occurrences :: "store \<Rightarrow> addr list \<Rightarrow> (id_t \<times> addr list) list \<Rightarrow> error + (id_t \<times> addr list) list" where
  "forget_occurrences st [] occs = Inr occs"
| "forget_occurrences st (a # as) occs =
     and_then (forget_occurrence st a occs) (forget_occurrences st as)"

definition destroy_path :: "64 word \<Rightarrow> HashGraph \<Rightarrow> error + HashGraph" where
  "destroy_path path g =
     and_then (occurrences_in_path g path) (\<lambda>steps.
     and_then (forget_occurrences (mappings g) steps (occurrences g)) (\<lambda>occs.
     let p = lookup_default path default_path (paths g)
     in and_then (destroy_path_t p (mappings g)) (\<lambda>st.
        Inr (g\<lparr>occurrences := occs,
               path_id := AList.delete (p_name p) (path_id g),
               paths := AList.delete path (paths g),
               mappings := st\<rparr>))))"

section \<open>Splitting a node\<close>

text \<open>
  The first loop of \<open>divide_handle\<close>: one new node per offset, holding the piece of the
  original sequence from that offset to the next one (or to the end). The lengths are
  \<open>size_t\<close> differences.
\<close>

fun divvy :: "id_t \<Rightarrow> nat \<Rightarrow> nat list \<Rightarrow> HashGraph \<Rightarrow> handle_t list \<Rightarrow>
    error + HashGraph \<times> handle_t list" where
  "divvy node_id node_length [] g return_val = Inr (g, return_val)"
| "divvy node_id node_length (off # rest) g return_val =
     (let len = size_sub (case rest of [] \<Rightarrow> node_length | next_off # _ \<Rightarrow> next_off) off
      in and_then (substr (sequence (lookup_default node_id (new_node []) (graph g))) off len) (\<lambda>s.
         case create_handle_next s g of (g', h) \<Rightarrow>
           divvy node_id node_length rest g' (return_val @ [h])))"

text \<open>The right edges of the original node move to the last piece.\<close>

definition move_right_edges :: "id_t \<Rightarrow> id_t \<Rightarrow> (id_t \<times> node_t) list \<Rightarrow> (id_t \<times> node_t) list" where
  "move_right_edges node_id final_id gr =
     (let gr0 = touch final_id (new_node []) gr;
          moved = right_edges (lookup_default node_id (new_node []) gr0);
          gr1 = modify final_id (new_node []) (\<lambda>n. n\<lparr>right_edges := moved\<rparr>) gr0
      in modify node_id (new_node []) (\<lambda>n. n\<lparr>right_edges := []\<rparr>) gr1)"

text \<open>
  The loop over \<open>final_node.right_edges\<close> that redirects the entries pointing back. The
  body changes entries of other lists in place and no list changes its length; the
  \<open>i\<close>-th round reads the \<open>i\<close>-th entry as it is then.
\<close>

definition retarget_back_references ::
  "handle_t \<Rightarrow> handle_t \<Rightarrow> (id_t \<times> node_t) list \<Rightarrow> (id_t \<times> node_t) list" where
  "retarget_back_references forward_handle final_handle gr =
     fold (\<lambda>i gr'.
             let next = right_edges (lookup_default (get_id final_handle) (new_node []) gr') ! i
             in on_bwd_edge_list next
                  (replace_first_where (\<lambda>bwd. bwd = flip forward_handle) (\<lambda>_. flip final_handle)) gr')
          [0..<length (right_edges (lookup_default (get_id final_handle) (new_node []) gr))] gr"

definition chain_segments :: "handle_t list \<Rightarrow> HashGraph \<Rightarrow> HashGraph" where
  "chain_segments return_val g =
     fold (\<lambda>i. create_edge (return_val ! (i - 1)) (return_val ! i)) [1..<length return_val] g"

text \<open>
  The inner loops over the new pieces: each piece is inserted after the previous
  insertion and recorded in the bucket of its node. \<open>flipped\<close> says whether the step
  traverses the node in reverse, in which case the pieces are inserted flipped.
\<close>

fun insert_run :: "bool \<Rightarrow> handle_t list \<Rightarrow> addr option \<Rightarrow> path_t \<Rightarrow> store \<Rightarrow>
    (id_t \<times> addr list) list \<Rightarrow> error + path_t \<times> store \<times> (id_t \<times> addr list) list" where
  "insert_run flipped [] mapping p st occs = Inr (p, st, occs)"
| "insert_run flipped (r # rs) mapping p st occs =
     and_then (insert_after (if flipped then flip r else r) mapping p st) (\<lambda>(inserted, p', st').
     insert_run flipped rs (Some inserted) p' st'
       (modify (get_id r) [] (\<lambda>b. b @ [inserted]) occs))"

definition rehome_step :: "handle_t list \<Rightarrow> addr \<Rightarrow> HashGraph \<Rightarrow> error + HashGraph" where
  "rehome_step return_val mapping g =
     and_then (deref (mappings g) mapping) (\<lambda>m.
     let p = lookup_default (m_path_id m) default_path (paths g)
     in and_then
          (if get_is_reverse (m_handle m)
           then insert_run True (rev (tl return_val)) (m_prev m) p (mappings g) (occurrences g)
           else insert_run False (tl return_val) (Some mapping) p (mappings g) (occurrences g))
          (\<lambda>(p', st', occs').
             Inr (g\<lparr>paths := AList.update (m_path_id m) p' (paths g),
                    mappings := st', occurrences := occs'\<rparr>)))"

fun rehome_steps :: "handle_t list \<Rightarrow> addr list \<Rightarrow> HashGraph \<Rightarrow> error + HashGraph" where
  "rehome_steps return_val [] g = Inr g"
| "rehome_steps return_val (mapping # rest) g =
     and_then (rehome_step return_val mapping g) (rehome_steps return_val rest)"

definition divide_handle :: "handle_t \<Rightarrow> nat list \<Rightarrow> HashGraph \<Rightarrow> error + HashGraph \<times> handle_t list" where
  "divide_handle h offsets g =
     and_then (get_length g h) (\<lambda>node_length.
     let forward_offsets =
           (if get_is_reverse h then map (\<lambda>off. size_sub node_length off) offsets else offsets);
         forward_handle = forward h
     in if offsets = [] then Inr (g, [forward_handle])
        else
          and_then (divvy (get_id h) node_length forward_offsets g [forward_handle]) (\<lambda>(g1, return_val).
          let g2 = g1\<lparr>graph := modify (get_id h) (new_node [])
                       (\<lambda>n. n\<lparr>sequence := take (hd forward_offsets) (sequence n)\<rparr>) (graph g1)\<rparr>;
              g3 = g2\<lparr>graph := move_right_edges (get_id h) (get_id (last return_val)) (graph g2)\<rparr>;
              g4 = g3\<lparr>graph := retarget_back_references forward_handle (last return_val) (graph g3)\<rparr>;
              g5 = chain_segments return_val g4
          in and_then
               (case map_of (occurrences g5) (get_id h) of
                  None \<Rightarrow> Inr g5
                | Some bucket \<Rightarrow> rehome_steps return_val bucket g5) (\<lambda>g6.
             Inr (g6, if get_is_reverse h then map flip (rev return_val) else return_val))))"

section \<open>Changing the orientation of a node\<close>

text \<open>
  \<open>apply_orientation\<close>. The loops run over the node's two lists and flip, for each
  entry, the first entry on the neighbour's list that carries the node's id. The
  \<open>i\<close>-th round reads the \<open>i\<close>-th entry as it is then (an entry of a self-loop may have
  been flipped by an earlier round).
\<close>

definition flip_back_references :: "id_t \<Rightarrow> bool \<Rightarrow> (id_t \<times> node_t) list \<Rightarrow> (id_t \<times> node_t) list" where
  "flip_back_references node_id left_side gr =
     (let edge_list = (\<lambda>gr'. (if left_side then left_edges else right_edges)
                                (lookup_default node_id (new_node []) gr'))
      in fold (\<lambda>i gr'. on_bwd_edge_list (edge_list gr' ! i)
                          (replace_first_where (\<lambda>bwd. get_id bwd = node_id) flip) gr')
           [0..<length (edge_list gr)] gr)"

fun flip_occurrences :: "addr list \<Rightarrow> store \<Rightarrow> error + store" where
  "flip_occurrences [] st = Inr st"
| "flip_occurrences (a # as) st =
     and_then (update_cell a (\<lambda>m. m\<lparr>m_handle := flip (m_handle m)\<rparr>) st) (flip_occurrences as)"

definition apply_orientation :: "handle_t \<Rightarrow> HashGraph \<Rightarrow> error + HashGraph \<times> handle_t" where
  "apply_orientation h g =
     (if \<not> get_is_reverse h then Inr (g, h)
      else
        let node_id = get_id h;
            gr0 = modify node_id (new_node [])
                    (\<lambda>n. n\<lparr>sequence := reverse_complement (sequence n)\<rparr>) (graph g);
            gr1 = flip_back_references node_id True gr0;
            gr2 = flip_back_references node_id False gr1;
            gr3 = modify node_id (new_node [])
                    (\<lambda>n. n\<lparr>left_edges := right_edges n, right_edges := left_edges n\<rparr>) gr2
        in and_then
             (case map_of (occurrences g) node_id of
                None \<Rightarrow> Inr (mappings g)
              | Some bucket \<Rightarrow> flip_occurrences bucket (mappings g)) (\<lambda>st.
           Inr (g\<lparr>graph := gr3, mappings := st\<rparr>, flip h)))"

section \<open>Clearing\<close>

text \<open>\<open>paths.clear ()\<close> runs the destructor of every path, in the order of the table.\<close>

fun destroy_paths :: "path_t list \<Rightarrow> store \<Rightarrow> error + store" where
  "destroy_paths [] st = Inr st"
| "destroy_paths (p # ps) st = and_then (destroy_path_t p st) (destroy_paths ps)"

definition clear ::
  "((64 word \<times> path_t) list \<Rightarrow> (64 word \<times> path_t) list) \<Rightarrow> HashGraph \<Rightarrow> error + HashGraph" where
  "clear path_order g =
     and_then (destroy_paths (map snd (path_order (paths g))) (mappings g)) (\<lambda>st.
     Inr (g\<lparr>max_id := 0, min_id := max_int64, next_path_id := 1, graph := [],
            path_id := [], paths := [], occurrences := [], mappings := st\<rparr>))"

section \<open>Serialization\<close>

text \<open>
  \<open>endianness<T>::to_big_endian\<close> followed by \<open>write\<close> of the eight bytes of the object
  puts the most significant byte first; \<open>read\<close> followed by \<open>from_big_endian\<close> assembles
  the value from eight bytes in that order. A \<open>size_t\<close> is written as the 64-bit value
  \<open>of_nat n\<close> and read back with \<open>unat\<close>.
\<close>

definition to_big_endian :: "64 word \<Rightarrow> char list" where
  "to_big_endian w = map (\<lambda>i. char_of (unat (drop_bit (8 * i) w))) [7, 6, 5, 4, 3, 2, 1, 0 :: nat]"

definition from_big_endian :: "char list \<Rightarrow> 64 word" where
  "from_big_endian bs = foldl (\<lambda>acc c. push_bit 8 acc OR of_char c) 0 bs"

text \<open>
  The input stream: the characters not yet read, whether a read has failed, and the
  number of \<open>read\<close> calls so far. \<open>in.read (buf, n)\<close> on a stream that holds fewer than
  \<open>n\<close> characters stores the ones it has, leaves the rest of \<open>buf\<close> as it was and sets
  the failure bits; every later \<open>read\<close> stores nothing. The source never tests the
  stream, so \<open>deserialize\<close> goes on with whatever the buffers hold.
\<close>

record istream =
  in_chars :: "char list"
  in_fail :: bool
  in_reads :: nat

definition read :: "char list \<Rightarrow> istream \<Rightarrow> char list \<times> istream" where
  "read buf s =
     (if in_fail s then (buf, s\<lparr>in_reads := Suc (in_reads s)\<rparr>)
      else if length (in_chars s) < length buf
      then (in_chars s @ drop (length (in_chars s)) buf,
            s\<lparr>in_chars := [], in_fail := True, in_reads := Suc (in_reads s)\<rparr>)
      else (take (length buf) (in_chars s),
            s\<lparr>in_chars := drop (length buf) (in_chars s), in_reads := Suc (in_reads s)\<rparr>))"

text \<open>
  A 64-bit value is read into a local variable that was not initialised. What such a
  variable holds is not determined by the source: \<open>uninit k\<close> stands for the value the
  buffer of the \<open>k\<close>-th \<open>read\<close> call held before the call.
\<close>

definition read_int64 :: "(nat \<Rightarrow> 64 word) \<Rightarrow> istream \<Rightarrow> 64 word \<times> istream" where
  "read_int64 uninit s =
     (case read (to_big_endian (uninit (in_reads s))) s of (bs, s') \<Rightarrow> (from_big_endian bs, s'))"

text \<open>
  \<open>resize\<close> of a string or vector, and the loop that reads a resized string one
  character at a time: \<open>for (i = 0; i < size; i++) in.read (&str[i], 1)\<close>.
\<close>

definition resize :: "nat \<Rightarrow> 'a \<Rightarrow> 'a list \<Rightarrow> 'a list" where
  "resize n filler xs = take n xs @ replicate (n - length xs) filler"

fun read_each :: "char list \<Rightarrow> istream \<Rightarrow> char list \<times> istream" where
  "read_each [] s = ([], s)"
| "read_each (c # cs) s =
     (case read [c] s of (b, s1) \<Rightarrow>
      case read_each cs s1 of (bs, s2) \<Rightarrow> (b @ bs, s2))"

fun read_handles :: "(nat \<Rightarrow> 64 word) \<Rightarrow> nat \<Rightarrow> istream \<Rightarrow> handle_t list \<times> istream" where
  "read_handles uninit 0 s = ([], s)"
| "read_handles uninit (Suc n) s =
     (case read_int64 uninit s of (h, s1) \<Rightarrow>
      case read_handles uninit n s1 of (hs, s2) \<Rightarrow> (h # hs, s2))"

definition write_handles :: "handle_t list \<Rightarrow> char list" where
  "write_handles hs = to_big_endian (of_nat (length hs)) @ concat (map to_big_endian hs)"

definition node_serialize :: "node_t \<Rightarrow> char list" where
  "node_serialize n =
     to_big_endian (of_nat (length (sequence n))) @ sequence n
     @ write_handles (left_edges n) @ write_handles (right_edges n)"

text \<open>
  \<open>node_t::deserialize\<close> runs on the node that \<open>graph[node_id]\<close> refers to: the sequence
  is resized, so before the reads it holds its old characters, filled up with zero
  characters; every entry of the two resized edge lists is assigned.
\<close>

definition node_deserialize :: "(nat \<Rightarrow> 64 word) \<Rightarrow> node_t \<Rightarrow> istream \<Rightarrow> node_t \<times> istream" where
  "node_deserialize uninit old s =
     (case read_int64 uninit s of (seq_size, s1) \<Rightarrow>
      case read_each (resize (unat seq_size) (CHR 0x00) (sequence old)) s1 of (sq, s2) \<Rightarrow>
      case read_int64 uninit s2 of (num_left_edges, s3) \<Rightarrow>
      case read_handles uninit (unat num_left_edges) s3 of (ls, s4) \<Rightarrow>
      case read_int64 uninit s4 of (num_right_edges, s5) \<Rightarrow>
      case read_handles uninit (unat num_right_edges) s5 of (rs, s6) \<Rightarrow>
        (\<lparr>sequence = sq, left_edges = ls, right_edges = rs\<rparr>, s6))"

fun step_handles :: "store \<Rightarrow> addr list \<Rightarrow> error + handle_t list" where
  "step_handles st [] = Inr []"
| "step_handles st (a # as) =
     and_then (deref st a) (\<lambda>m.
     and_then (step_handles st as) (\<lambda>hs. Inr (m_handle m # hs)))"

text \<open>The handles of the steps met on the way from a pointer, in order.\<close>

definition handles_from :: "store \<Rightarrow> addr option \<Rightarrow> error + handle_t list" where
  "handles_from st first = and_then (steps_from st first) (step_handles st)"

definition path_serialize :: "store \<Rightarrow> path_t \<Rightarrow> error + char list" where
  "path_serialize st p =
     and_then (handles_from st (p_head p)) (\<lambda>hs.
     Inr (to_big_endian (p_path_id p)
          @ to_big_endian (of_nat (length (p_name p))) @ p_name p
          @ to_big_endian (of_nat (p_count p))
          @ concat (map to_big_endian hs)))"

fun read_steps :: "(nat \<Rightarrow> 64 word) \<Rightarrow> nat \<Rightarrow> istream \<Rightarrow> path_t \<Rightarrow> store \<Rightarrow>
    error + path_t \<times> store \<times> istream" where
  "read_steps uninit 0 s p st = Inr (p, st, s)"
| "read_steps uninit (Suc n) s p st =
     (case read_int64 uninit s of (step, s1) \<Rightarrow>
      and_then (push_back step p st) (\<lambda>(mapping, p', st').
      read_steps uninit n s1 p' st'))"

text \<open>
  \<open>path_t::deserialize\<close> on the fresh local \<open>path_t path\<close> of \<open>HashGraph::deserialize\<close>:
  its destructor call finds an empty list, and its name is empty before the resize.
\<close>

definition path_deserialize :: "(nat \<Rightarrow> 64 word) \<Rightarrow> istream \<Rightarrow> store \<Rightarrow>
    error + path_t \<times> store \<times> istream" where
  "path_deserialize uninit s st =
     (case read_int64 uninit s of (pid, s1) \<Rightarrow>
      case read_int64 uninit s1 of (name_size, s2) \<Rightarrow>
      case read_each (resize (unat name_size) (CHR 0x00) []) s2 of (name, s3) \<Rightarrow>
      case read_int64 uninit s3 of (num_mappings, s4) \<Rightarrow>
        read_steps uninit (unat num_mappings) s4
          (default_path\<lparr>p_path_id := pid, p_name := name, p_count := 0\<rparr>) st)"

fun serialize_paths :: "store \<Rightarrow> path_t list \<Rightarrow> error + char list" where
  "serialize_paths st [] = Inr []"
| "serialize_paths st (p # ps) =
     and_then (path_serialize st p) (\<lambda>out1.
     and_then (serialize_paths st ps) (\<lambda>out2. Inr (out1 @ out2)))"

definition serialize ::
  "((id_t \<times> node_t) list \<Rightarrow> (id_t \<times> node_t) list) \<Rightarrow>
   ((64 word \<times> path_t) list \<Rightarrow> (64 word \<times> path_t) list) \<Rightarrow> HashGraph \<Rightarrow> error + char list" where
  "serialize node_order path_order g =
     and_then (serialize_paths (mappings g) (map snd (path_order (paths g)))) (\<lambda>paths_out.
     Inr (to_big_endian (max_id g) @ to_big_endian (min_id g) @ to_big_endian (next_path_id g)
          @ to_big_endian (of_nat (length (graph g)))
          @ concat (map (\<lambda>(node_id, n). to_big_endian node_id @ node_serialize n)
                      (node_order (graph g)))
          @ to_big_endian (of_nat (length (paths g)))
          @ paths_out))"

fun read_nodes :: "(nat \<Rightarrow> 64 word) \<Rightarrow> nat \<Rightarrow> istream \<Rightarrow> (id_t \<times> node_t) list \<Rightarrow>
    (id_t \<times> node_t) list \<times> istream" where
  "read_nodes uninit 0 s gr = (gr, s)"
| "read_nodes uninit (Suc n) s gr =
     (case read_int64 uninit s of (node_id, s1) \<Rightarrow>
      case node_deserialize uninit (lookup_default node_id (new_node []) gr) s1 of (node, s2) \<Rightarrow>
        read_nodes uninit n s2 (AList.update node_id node gr))"

fun read_paths :: "(nat \<Rightarrow> 64 word) \<Rightarrow> nat \<Rightarrow> istream \<Rightarrow> HashGraph \<Rightarrow>
    error + HashGraph \<times> istream" where
  "read_paths uninit 0 s g = Inr (g, s)"
| "read_paths uninit (Suc n) s g =
     and_then (path_deserialize uninit s (mappings g)) (\<lambda>(p, st, s1).
     and_then (assign_path (p_path_id p) p
                 (g\<lparr>mappings := st, path_id := AList.update (p_name p) (p_path_id p) (path_id g)\<rparr>))
       (\<lambda>g'. read_paths uninit n s1 g'))"

text \<open>The last loop of \<open>deserialize\<close>: every step of every path goes into its bucket.\<close>

fun index_steps :: "store \<Rightarrow> addr list \<Rightarrow> (id_t \<times> addr list) list \<Rightarrow> error + (id_t \<times> addr list) list" where
  "index_steps st [] occs = Inr occs"
| "index_steps st (a # as) occs =
     and_then (deref st a) (\<lambda>m.
     index_steps st as (modify (get_id (m_handle m)) [] (\<lambda>b. b @ [a]) occs))"

fun index_paths :: "store \<Rightarrow> path_t list \<Rightarrow> (id_t \<times> addr list) list \<Rightarrow> error + (id_t \<times> addr list) list" where
  "index_paths st [] occs = Inr occs"
| "index_paths st (p # ps) occs =
     and_then (steps_from st (p_head p)) (\<lambda>steps.
     and_then (index_steps st steps occs) (index_paths st ps))"

definition deserialize ::
  "(nat \<Rightarrow> 64 word) \<Rightarrow> ((64 word \<times> path_t) list \<Rightarrow> (64 word \<times> path_t) list) \<Rightarrow>
   char list \<Rightarrow> HashGraph \<Rightarrow> error + HashGraph" where
  "deserialize uninit path_order input g =
     and_then (clear path_order g) (\<lambda>g0.
     case read_int64 uninit \<lparr>in_chars = input, in_fail = False, in_reads = 0\<rparr> of (max_id_in, s1) \<Rightarrow>
     case read_int64 uninit s1 of (min_id_in, s2) \<Rightarrow>
     case read_int64 uninit s2 of (next_path_id_in, s3) \<Rightarrow>
     case read_int64 uninit s3 of (num_nodes, s4) \<Rightarrow>
     case read_nodes uninit (unat num_nodes) s4 (graph g0) of (gr, s5) \<Rightarrow>
     case read_int64 uninit s5 of (num_paths, s6) \<Rightarrow>
     and_then (read_paths uninit (unat num_paths) s6
                 (g0\<lparr>max_id := max_id_in, min_id := min_id_in,
                     next_path_id := next_path_id_in, graph := gr\<rparr>)) (\<lambda>(g1, s7).
     and_then (index_paths (mappings g1) (map snd (path_order (paths g1))) (occurrences g1)) (\<lambda>occs.
     Inr (g1\<lparr>occurrences := occs\<rparr>))))"

section \<open>Reachable states\<close>

text \<open>
  The states a graph can be in: the new graph, and every state in which a public
  operation that changes the graph returns, for any arguments, from such a state.
  (\<open>swap_handles\<close> does nothing; the constructor from a stream is \<open>deserialize\<close> on a
  new graph.)
\<close>

inductive reachable :: "HashGraph \<Rightarrow> bool" where
  new_graph: "reachable empty_graph"
| by_create_handle: "reachable g \<Longrightarrow> reachable (fst (create_handle s node_id g))"
| by_create_handle_next: "reachable g \<Longrightarrow> reachable (fst (create_handle_next s g))"
| by_create_edge: "reachable g \<Longrightarrow> reachable (create_edge left right g)"
| by_destroy_handle: "reachable g \<Longrightarrow> reachable (destroy_handle h g)"
| by_destroy_edge: "reachable g \<Longrightarrow> reachable (destroy_edge left right g)"
| by_apply_orientation:
    "reachable g \<Longrightarrow> apply_orientation h g = Inr (g', h') \<Longrightarrow> reachable g'"
| by_divide_handle:
    "reachable g \<Longrightarrow> divide_handle h offsets g = Inr (g', parts) \<Longrightarrow> reachable g'"
| by_clear: "reachable g \<Longrightarrow> clear path_order g = Inr g' \<Longrightarrow> reachable g'"
| by_create_path_handle:
    "reachable g \<Longrightarrow> create_path_handle name g = Inr (g', path) \<Longrightarrow> reachable g'"
| by_append_occurrence:
    "reachable g \<Longrightarrow> append_occurrence path h g = Inr (g', occ) \<Longrightarrow> reachable g'"
| by_destroy_path: "reachable g \<Longrightarrow> destroy_path path g = Inr g' \<Longrightarrow> reachable g'"
| by_deserialize:
    "reachable g \<Longrightarrow> deserialize uninit path_order input g = Inr g' \<Longrightarrow> reachable g'"

section \<open>Well-formed step lists\<close>

text \<open>
  \<open>chain st prev as cur\<close>: following \<open>next\<close> from the pointer \<open>cur\<close> meets exactly the
  records at the addresses \<open>as\<close>, in that order, and then \<open>nullptr\<close>; each record's \<open>prev\<close>
  is the record before it (\<open>prev\<close> for the first).
\<close>

fun chain :: "store \<Rightarrow> addr option \<Rightarrow> addr list \<Rightarrow> addr option \<Rightarrow> bool" where
  "chain st prev [] cur = (cur = None)"
| "chain st prev (a # as) cur =
     (cur = Some a
      \<and> (case cells st a of
            None \<Rightarrow> False
          | Some m \<Rightarrow> m_prev m = prev \<and> chain st (Some a) as (m_next m)))"

text \<open>
  The path record \<open>p\<close>, stored under the key \<open>k\<close>, owns the step records \<open>as\<close>: they are
  its list from \<open>head\<close> to \<open>tail\<close>, \<open>count\<close> is their number, and the path and its records
  carry the identifier \<open>k\<close>.
\<close>

definition path_ok :: "store \<Rightarrow> 64 word \<Rightarrow> path_t \<Rightarrow> addr list \<Rightarrow> bool" where
  "path_ok st k p as =
     (chain st None as (p_head p) \<and> distinct as
      \<and> p_tail p = (if as = [] then None else Some (last as))
      \<and> p_count p = length as \<and> p_path_id p = k
      \<and> (\<forall>a \<in> set as. case cells st a of None \<Rightarrow> False | Some m \<Rightarrow> m_path_id m = k))"

text \<open>
  The path table and the free store fit together: every path owns its list, every live
  record is on the list of the path stored under the record's path identifier, and the
  live records are below \<open>next_free\<close>.
\<close>

definition store_wf :: "(64 word \<times> path_t) list \<Rightarrow> store \<Rightarrow> bool" where
  "store_wf ps st =
     (distinct (map fst ps)
      \<and> (\<forall>a. cells st a \<noteq> None \<longrightarrow> a < next_free st)
      \<and> (\<forall>k p. map_of ps k = Some p \<longrightarrow> (\<exists>as. path_ok st k p as))
      \<and> (\<forall>a m. cells st a = Some m \<longrightarrow>
            (\<exists>p as. map_of ps (m_path_id m) = Some p \<and> path_ok st (m_path_id m) p as \<and> a \<in> set as)))"

definition paths_wf :: "HashGraph \<Rightarrow> bool" where
  "paths_wf g = store_wf (paths g) (mappings g)"

text \<open>
  The states reached by calls that keep to the contract of the path handles:
  \<open>append_occurrence\<close> is given the handle of a path that exists (\<open>paths[...]\<close> makes a
  path record with identifier 0 under the given key otherwise), and a walk over the
  path table yields every entry once.
\<close>

inductive proper :: "HashGraph \<Rightarrow> bool" where
  p_new_graph: "proper empty_graph"
| p_create_handle: "proper g \<Longrightarrow> proper (fst (create_handle s node_id g))"
| p_create_handle_next: "proper g \<Longrightarrow> proper (fst (create_handle_next s g))"
| p_create_edge: "proper g \<Longrightarrow> proper (create_edge left right g)"
| p_destroy_handle: "proper g \<Longrightarrow> proper (destroy_handle h g)"
| p_destroy_edge: "proper g \<Longrightarrow> proper (destroy_edge left right g)"
| p_apply_orientation:
    "proper g \<Longrightarrow> apply_orientation h g = Inr (g', h') \<Longrightarrow> proper g'"
| p_divide_handle:
    "proper g \<Longrightarrow> divide_handle h offsets g = Inr (g', parts) \<Longrightarrow> proper g'"
| p_clear:
    "proper g \<Longrightarrow> mset (path_order (paths g)) = mset (paths g) \<Longrightarrow>
     clear path_order g = Inr g' \<Longrightarrow> proper g'"
| p_create_path_handle:
    "proper g \<Longrightarrow> create_path_handle name g = Inr (g', path) \<Longrightarrow> proper g'"
| p_append_occurrence:
    "proper g \<Longrightarrow> map_of (paths g) path \<noteq> None \<Longrightarrow>
     append_occurrence path h g = Inr (g', occ) \<Longrightarrow> proper g'"
| p_destroy_path: "proper g \<Longrightarrow> destroy_path path g = Inr g' \<Longrightarrow> proper g'"
| p_deserialize:
    "proper g \<Longrightarrow> \<forall>ps. mset (path_order ps) = mset ps \<Longrightarrow>
     deserialize uninit path_order input g = Inr g' \<Longrightarrow> proper g'"

section \<open>Observations and examples\<close>

text \<open>
  The adjacency list of a node: the left list when \<open>on_left\<close>, else the right one; empty
  for an id that is not live.
\<close>

definition edges_of :: "(id_t \<times> node_t) list \<Rightarrow> id_t \<Rightarrow> bool \<Rightarrow> handle_t list" where
  "edges_of gr node_id on_left =
     (case map_of gr node_id of
        None \<Rightarrow> []
      | Some n \<Rightarrow> if on_left then left_edges n else right_edges n)"

definition edge_list :: "HashGraph \<Rightarrow> id_t \<Rightarrow> bool \<Rightarrow> handle_t list" where
  "edge_list g node_id on_left = edges_of (graph g) node_id on_left"

definition entries :: "HashGraph \<Rightarrow> id_t \<Rightarrow> nat" where
  "entries g node_id = length (edge_list g node_id True) + length (edge_list g node_id False)"




definition early_stop :: "('a \<times> bool) list \<Rightarrow> 'a list \<Rightarrow> bool \<Rightarrow> bool" where
  "early_stop seen xs result =
     (length seen \<le> length xs
      \<and> map fst seen = take (length seen) xs
      \<and> (\<forall>i<length seen. snd (seen ! i) = (Suc i < length seen \<or> result))
      \<and> (if result then length seen = length xs else seen \<noteq> []))"

definition two_nodes :: HashGraph where
  "two_nodes =
     (case create_handle ''ATG'' 2 empty_graph of (g1, h) \<Rightarrow>
      case create_handle ''CT'' 1 g1 of (g2, h2) \<Rightarrow>
      case create_handle ''GAC'' 4 g2 of (g3, h3) \<Rightarrow>
        create_edge h (flip h3) (create_edge h h2 g3))"

definition three_edges :: HashGraph where
  "three_edges = create_edge 4 3 two_nodes"

definition one_node :: HashGraph where
  "one_node = fst (create_handle ''A'' 1 empty_graph)"

definition after_destroy :: HashGraph where
  "after_destroy =
     (case create_handle_next ''A'' empty_graph of (g1, h1) \<Rightarrow>
      case create_handle_next ''C'' g1 of (g2, h2) \<Rightarrow>
        destroy_handle h2 g2)"

definition atg_node :: HashGraph where
  "atg_node = fst (create_handle ''ATG'' 1 empty_graph)"

definition atg_divvied :: HashGraph where
  "atg_divvied = empty_graph\<lparr>graph :=
       [(1, \<lparr>sequence = ''ATG'', left_edges = [], right_edges = []\<rparr>),
        (2, \<lparr>sequence = ''G'', left_edges = [], right_edges = []\<rparr>),
        (3, \<lparr>sequence = ''TG'', left_edges = [], right_edges = []\<rparr>)],
      max_id := 3, min_id := 1\<rparr>"

definition atg_divided :: HashGraph where
  "atg_divided = empty_graph\<lparr>graph :=
       [(1, \<lparr>sequence = ''AT'', left_edges = [], right_edges = [get_handle 2 False]\<rparr>),
        (2, \<lparr>sequence = ''G'', left_edges = [get_handle 1 True], right_edges = [get_handle 3 False]\<rparr>),
        (3, \<lparr>sequence = ''TG'', left_edges = [get_handle 2 True], right_edges = []\<rparr>)],
      max_id := 3, min_id := 1\<rparr>"




text \<open>
  A node on a path: the node \<open>AC\<close> with the path \<open>x\<close> that visits it forward and then in
  reverse, and the state after the node has been divided at offset 1.
\<close>

definition two_steps :: HashGraph where
  "two_steps = empty_graph\<lparr>graph := [(1, \<lparr>sequence = ''AC'', left_edges = [], right_edges = []\<rparr>)],
      max_id := 1, min_id := 1, next_path_id := 2, path_id := [(''x'', 1)],
      paths := [(1, \<lparr>p_head = Some 0, p_tail = Some 1, p_path_id = 1, p_count = 2, p_name = ''x''\<rparr>)],
      occurrences := [(1, [0, 1])],
      mappings := \<lparr>cells = (\<lambda>a.
           if a = 0 then Some \<lparr>m_handle = get_handle 1 False, m_path_id = 1,
                                m_prev = None, m_next = Some 1\<rparr>
           else if a = 1 then Some \<lparr>m_handle = get_handle 1 True, m_path_id = 1,
                                m_prev = Some 0, m_next = None\<rparr>
           else None),
         next_free = 2\<rparr>\<rparr>"

definition four_steps :: HashGraph where
  "four_steps = empty_graph\<lparr>graph :=
       [(1, \<lparr>sequence = ''A'', left_edges = [], right_edges = [get_handle 2 False]\<rparr>),
        (2, \<lparr>sequence = ''C'', left_edges = [get_handle 1 True], right_edges = []\<rparr>)],
      max_id := 2, min_id := 1, next_path_id := 2, path_id := [(''x'', 1)],
      paths := [(1, \<lparr>p_head = Some 0, p_tail = Some 1, p_path_id = 1, p_count = 4, p_name = ''x''\<rparr>)],
      occurrences := [(1, [0, 1]), (2, [2, 3])],
      mappings := \<lparr>cells = (\<lambda>a.
           if a = 0 then Some \<lparr>m_handle = get_handle 1 False, m_path_id = 1,
                                m_prev = None, m_next = Some 2\<rparr>
           else if a = 1 then Some \<lparr>m_handle = get_handle 1 True, m_path_id = 1,
                                m_prev = Some 3, m_next = None\<rparr>
           else if a = 2 then Some \<lparr>m_handle = get_handle 2 False, m_path_id = 1,
                                m_prev = Some 0, m_next = Some 3\<rparr>
           else if a = 3 then Some \<lparr>m_handle = get_handle 2 True, m_path_id = 1,
                                m_prev = Some 2, m_next = Some 1\<rparr>
           else None),
         next_free = 4\<rparr>\<rparr>"

text \<open>
  The same node with one step appended under the path handle 7, which no call has
  created, and the state after the node has been divided at offset 1.
\<close>

definition stray_step :: HashGraph where
  "stray_step = empty_graph\<lparr>graph := [(1, \<lparr>sequence = ''AC'', left_edges = [], right_edges = []\<rparr>)],
      max_id := 1, min_id := 1,
      paths := [(7, \<lparr>p_head = Some 0, p_tail = Some 0, p_path_id = 0, p_count = 1, p_name = []\<rparr>)],
      occurrences := [(1, [0])],
      mappings := \<lparr>cells = (\<lambda>a.
           if a = 0 then Some \<lparr>m_handle = get_handle 1 False, m_path_id = 0,
                                m_prev = None, m_next = None\<rparr>
           else None),
         next_free = 1\<rparr>\<rparr>"

definition stray_divided :: HashGraph where
  "stray_divided = empty_graph\<lparr>graph :=
       [(1, \<lparr>sequence = ''A'', left_edges = [], right_edges = [get_handle 2 False]\<rparr>),
        (2, \<lparr>sequence = ''C'', left_edges = [get_handle 1 True], right_edges = []\<rparr>)],
      max_id := 2, min_id := 1,
      paths := [(7, \<lparr>p_head = Some 0, p_tail = Some 0, p_path_id = 0, p_count = 1, p_name = []\<rparr>),
                (0, \<lparr>p_head = None, p_tail = None, p_path_id = 0, p_count = 1, p_name = []\<rparr>)],
      occurrences := [(1, [0]), (2, [1])],
      mappings := \<lparr>cells = (\<lambda>a.
           if a = 0 then Some \<lparr>m_handle = get_handle 1 False, m_path_id = 0,
                                m_prev = None, m_next = Some 1\<rparr>
           else if a = 1 then Some \<lparr>m_handle = get_handle 2 False, m_path_id = 0,
                                m_prev = Some 0, m_next = None\<rparr>
           else None),
         next_free = 2\<rparr>\<rparr>"

section \<open>Properties of handles\<close>

lemma unpack_bit_odd: "unpack_bit h = odd h"
  by (simp add: unpack_bit_def and_one_eq odd_iff_mod_2_eq_one)

lemma get_id_flip: "get_id (flip h) = get_id h"
  unfolding get_id_def flip_def unpack_number_def toggle_bit_def
  by (rule bit_word_eqI) (simp add: bit_simps)

lemma get_is_reverse_flip: "get_is_reverse (flip h) = (\<not> get_is_reverse h)"
  unfolding get_is_reverse_def flip_def unpack_bit_odd toggle_bit_def
  by (simp add: even_xor_iff)

lemma flip_flip: "flip (flip h) = h"
proof -
  have "(h XOR 1) XOR 1 = h XOR (1 XOR 1)" by (rule xor.assoc)
  then show ?thesis unfolding flip_def toggle_bit_def by simp
qed

lemma flip_neq: "flip h \<noteq> h"
proof
  assume "flip h = h"
  then have "get_is_reverse (flip h) = get_is_reverse h" by (rule arg_cong)
  then show False by (simp add: get_is_reverse_flip)
qed

lemma bit_below_63:
  fixes n :: "64 word"
  assumes "n < 2 ^ 63" and "bit n k"
  shows "k < 63"
proof -
  have "n AND mask 63 = n"
    by (rule less_mask_eq) (rule assms(1))
  then have tb: "take_bit 63 n = n"
    by (simp only: take_bit_eq_mask)
  have "bit (take_bit 63 n) k"
    using assms(2) by (simp only: tb)
  then show ?thesis
    by (simp only: bit_take_bit_iff)
qed

lemma bit_drop_pack:
  "bit (drop_bit 1 (push_bit 1 (n :: 64 word) OR (if b then 1 else 0))) k = (k < 63 \<and> bit n k)"
proof -
  have 1: "bit (push_bit 1 n) (Suc k) = (k < 63 \<and> bit n k)"
    by (simp only: bit_push_bit_iff possible_bit_word) auto
  have 2: "\<not> bit (if b then 1 else (0 :: 64 word)) (Suc k)"
    by (simp add: bit_1_iff)
  have "bit (drop_bit 1 (push_bit 1 n OR (if b then 1 else 0))) k
      = bit (push_bit 1 n OR (if b then 1 else 0)) (Suc k)"
    by (simp only: bit_drop_bit_eq comp_def plus_1_eq_Suc)
  also have "\<dots> = (k < 63 \<and> bit n k)"
    by (simp only: bit_or_iff 1 2 simp_thms)
  finally show ?thesis .
qed

lemma get_id_get_handle:
  assumes "node_id < 2 ^ 63"
  shows "get_id (get_handle node_id b) = node_id"
  unfolding get_id_def get_handle_def pack_def unpack_number_def
  by (rule bit_word_eqI) (use bit_below_63[OF assms] in \<open>auto simp only: bit_drop_pack\<close>)

lemma get_id_less: "get_id h < 2 ^ 63"
proof -
  have "take_bit 63 (drop_bit 1 h) = drop_bit 1 h"
    by (rule bit_word_eqI) (auto simp add: bit_simps dest: bit_imp_possible_bit)
  then have "drop_bit 1 h AND mask 63 = drop_bit 1 h" by (simp add: take_bit_eq_mask)
  moreover have "drop_bit 1 h AND mask 63 < 2 ^ 63"
    by (rule and_mask_less_size) (simp add: word_size)
  ultimately show ?thesis
    unfolding get_id_def unpack_number_def by simp
qed

lemma handle_eqI: "get_id a = get_id b \<Longrightarrow> get_is_reverse a = get_is_reverse b \<Longrightarrow> a = b"
  unfolding get_id_def get_is_reverse_def unpack_number_def unpack_bit_odd
proof (rule bit_word_eqI)
  fix n assume a: "drop_bit 1 a = drop_bit 1 b" "odd a = odd b" "n < LENGTH(64)"
  show "bit a n = bit b n"
  proof (cases n)
    case 0 then show ?thesis using a by (simp add: bit_0)
  next
    case (Suc m)
    have "bit (drop_bit 1 a) m = bit (drop_bit 1 b) m" using a by simp
    then show ?thesis using Suc by (simp add: bit_simps)
  qed
qed

lemma get_is_reverse_get_handle: "get_is_reverse (get_handle node_id b) = b"
  unfolding get_is_reverse_def get_handle_def pack_def unpack_bit_odd
  by (simp add: even_or_iff)

lemma get_handle_get_id: "get_handle (get_id h) (get_is_reverse h) = h"
  by (rule handle_eqI) (rule get_id_get_handle[OF get_id_less], rule get_is_reverse_get_handle)

section \<open>Failure and hash maps\<close>

lemma and_then_Inr [simp]: "and_then (Inr x) f = f x"
  by (simp add: and_then_def)

lemma and_then_Inl [simp]: "and_then (Inl e) f = Inl e"
  by (simp add: and_then_def)

lemma and_then_eq_Inr: "and_then m f = Inr y \<longleftrightarrow> (\<exists>x. m = Inr x \<and> f x = Inr y)"
  by (cases m) simp_all

lemma map_of_modify:
  "map_of (modify k d f m) k' = (if k' = k then Some (f (lookup_default k d m)) else map_of m k')"
  by (simp add: modify_def update_conv')


lemma distinct_modify: "distinct (map fst (modify k d f m)) = distinct (map fst m)"
  by (auto simp add: modify_def update_keys)

lemma distinct_touch: "distinct (map fst (touch k d m)) = distinct (map fst m)"
  by (auto simp add: touch_def map_of_eq_None_iff)

section \<open>Creating edges\<close>

lemma edge_list_create_edge:
  "edge_list (create_edge h1 h2 g) k s =
     edge_list g k s
     @ (if k = get_id h1 \<and> s = get_is_reverse h1 then [h2] else [])
     @ (if h1 \<noteq> flip h2 \<and> k = get_id h2 \<and> s = (\<not> get_is_reverse h2) then [flip h1] else [])"
proof -
  have push: "edge_list (g'\<lparr>graph := modify k' (new_node [])
                  (if on_left then push_left e else push_right e) (graph g')\<rparr>) k s
        = edge_list g' k s @ (if k = k' \<and> s = on_left then [e] else [])" for g' k' on_left e
    by (simp add: edge_list_def edges_of_def map_of_modify lookup_default_def push_left_def
        push_right_def new_node_def split: option.splits)
  have flip_if: "(if b then push_right e else push_left e) = (if \<not> b then push_left e else push_right e)"
    for b and e :: handle_t
    by simp
  show ?thesis
    unfolding create_edge_def Let_def flip_if
    by (simp only: push if_distrib[of "\<lambda>g. edge_list g k s"] append_assoc HashGraph.simps
        split: if_splits) auto
qed

lemma sides_differ:
  assumes "h1 \<noteq> flip h2"
  shows "\<not> (get_id h2 = get_id h1 \<and> (\<not> get_is_reverse h2) = get_is_reverse h1)"
proof
  assume eq: "get_id h2 = get_id h1 \<and> (\<not> get_is_reverse h2) = get_is_reverse h1"
  have "get_id h1 = get_id (flip h2)"
    using eq by (simp add: get_id_flip)
  moreover have "get_is_reverse h1 = get_is_reverse (flip h2)"
    using eq by (simp add: get_is_reverse_flip)
  ultimately have "h1 = flip h2"
    by (rule handle_eqI)
  with assms show False by simp
qed

text \<open>
  Claim C4. A reversing self-loop \<open>create_edge (h, flip (h))\<close> adds exactly one entry to the
  two adjacency lists of the node taken together. For \<open>h1 \<noteq> flip (h2)\<close>, \<open>create_edge (h1,
  h2)\<close> appends \<open>h2\<close> to one list of the node of \<open>h1\<close> (the left list when \<open>h1\<close> is
  reverse, else the right one), appends the reciprocal entry \<open>flip (h1)\<close> to one list of the
  node of \<open>h2\<close> (the right list when \<open>h2\<close> is reverse, else the left one), and changes
  no other list. The statement holds for every graph: a node that is not live is
  created empty by \<open>graph[...]\<close> first.
\<close>

theorem create_edge_entries:
  "entries (create_edge h (flip h) g) (get_id h) = entries g (get_id h) + 1
   \<and> (h1 \<noteq> flip h2 \<longrightarrow>
        edge_list (create_edge h1 h2 g) (get_id h1) (get_is_reverse h1)
          = edge_list g (get_id h1) (get_is_reverse h1) @ [h2]
      \<and> edge_list (create_edge h1 h2 g) (get_id h2) (\<not> get_is_reverse h2)
          = edge_list g (get_id h2) (\<not> get_is_reverse h2) @ [flip h1]
      \<and> (\<forall>k s. (k, s) \<noteq> (get_id h1, get_is_reverse h1) \<and> (k, s) \<noteq> (get_id h2, \<not> get_is_reverse h2)
            \<longrightarrow> edge_list (create_edge h1 h2 g) k s = edge_list g k s))"
proof (intro conjI impI allI)
  show "entries (create_edge h (flip h) g) (get_id h) = entries g (get_id h) + 1"
    by (simp add: entries_def edge_list_create_edge flip_flip get_id_flip)
next
  assume ne: "h1 \<noteq> flip h2"
  show "edge_list (create_edge h1 h2 g) (get_id h1) (get_is_reverse h1)
          = edge_list g (get_id h1) (get_is_reverse h1) @ [h2]"
    using sides_differ[OF ne] by (simp add: edge_list_create_edge eq_commute)
next
  assume ne: "h1 \<noteq> flip h2"
  show "edge_list (create_edge h1 h2 g) (get_id h2) (\<not> get_is_reverse h2)
          = edge_list g (get_id h2) (\<not> get_is_reverse h2) @ [flip h1]"
    using sides_differ[OF ne] ne by (simp add: edge_list_create_edge)
next
  fix k s
  assume "(k, s) \<noteq> (get_id h1, get_is_reverse h1) \<and> (k, s) \<noteq> (get_id h2, \<not> get_is_reverse h2)"
  then show "edge_list (create_edge h1 h2 g) k s = edge_list g k s"
    by (simp add: edge_list_create_edge)
qed

theorem create_edge_entries_witness:
  "entries (create_edge 4 (flip 4) two_nodes) (get_id 4) = entries two_nodes (get_id 4) + 1
   \<and> (4 :: handle_t) \<noteq> flip 8
   \<and> edge_list (create_edge 4 8 two_nodes) (get_id 4) (get_is_reverse 4)
        = edge_list two_nodes (get_id 4) (get_is_reverse 4) @ [8]
   \<and> edge_list (create_edge 4 8 two_nodes) (get_id 8) (\<not> get_is_reverse 8)
        = edge_list two_nodes (get_id 8) (\<not> get_is_reverse 8) @ [flip 4]
   \<and> edge_list (create_edge 4 8 two_nodes) 1 True = edge_list two_nodes 1 True"
proof -
  have ne: "(4 :: handle_t) \<noteq> flip 8"
    by (simp add: flip_def toggle_bit_def)
  have other: "((1 :: id_t), True) \<noteq> (get_id 4, get_is_reverse 4)
      \<and> ((1 :: id_t), True) \<noteq> (get_id 8, \<not> get_is_reverse 8)"
    by (simp add: get_id_def unpack_number_def)
  show ?thesis
    using ne other create_edge_entries[of 4 two_nodes 4 8] by blast
qed

section \<open>Early stop\<close>

lemma early_stop_Nil: "early_stop [] [] True"
  by (simp add: early_stop_def)

lemma early_stop_stop: "early_stop [(x, False)] (x # xs) False"
  by (simp add: early_stop_def)

lemma early_stop_Cons:
  assumes "early_stop seen xs result"
  shows "early_stop ((x, True) # seen) (x # xs) result"
proof -
  have "snd (((x, True) # seen) ! i) = (Suc i < length ((x, True) # seen) \<or> result)"
    if "i < length ((x, True) # seen)" for i
  proof (cases i)
    case 0
    then show ?thesis using assms by (cases seen) (auto simp add: early_stop_def split: if_splits)
  next
    case (Suc j)
    then show ?thesis using assms that by (simp add: early_stop_def)
  qed
  then show ?thesis
    using assms unfolding early_stop_def by (simp split: if_splits)
qed

lemma traced_apply:
  "traced f x (s, seen) = (case f x s of (keep_going, s') \<Rightarrow> (keep_going, s', seen @ [(x, keep_going)]))"
  by (simp add: traced_def)

lemma iterate_while_traced:
  "\<exists>result s' seen.
     iterate_while (traced f) xs (s, seen0) = (result, s', seen0 @ seen)
     \<and> iterate_while f xs s = (result, s')
     \<and> early_stop seen xs result"
proof (induction xs arbitrary: s seen0)
  case Nil
  show ?case
    by (intro exI[of _ True] exI[of _ s] exI[of _ "[]"]) (simp add: early_stop_Nil)
next
  case (Cons x xs)
  obtain k s1 where fx: "f x s = (k, s1)" by (cases "f x s")
  show ?case
  proof (cases k)
    case False
    then show ?thesis
      using fx early_stop_stop[of x xs]
      by (intro exI[of _ False] exI[of _ s1] exI[of _ "[(x, False)]"]) (simp add: traced_apply)
  next
    case True
    obtain result s' seen where
      "iterate_while (traced f) xs (s1, seen0 @ [(x, True)]) = (result, s', (seen0 @ [(x, True)]) @ seen)"
      "iterate_while f xs s1 = (result, s')" "early_stop seen xs result"
      using Cons.IH[of s1 "seen0 @ [(x, True)]"] by blast
    then show ?thesis
      using fx True early_stop_Cons[of seen xs result x]
      by (intro exI[of _ result] exI[of _ s'] exI[of _ "(x, True) # seen"]) (simp add: traced_apply)
  qed
qed

text \<open>The example graph, evaluated.\<close>

lemma two_nodes_graph:
  "graph two_nodes =
     [(2, \<lparr>sequence = ''ATG'', left_edges = [], right_edges = [2, 9]\<rparr>),
      (1, \<lparr>sequence = ''CT'', left_edges = [5], right_edges = []\<rparr>),
      (4, \<lparr>sequence = ''GAC'', left_edges = [], right_edges = [5]\<rparr>)]"
  by (simp add: two_nodes_def create_handle_def create_edge_def empty_graph_def get_handle_def
      pack_def get_id_def unpack_number_def get_is_reverse_def unpack_bit_def flip_def
      toggle_bit_def modify_def lookup_default_def new_node_def push_left_def push_right_def
      Let_def)

lemma iterate_while_map: "iterate_while (\<lambda>x. f (h x)) xs s = iterate_while f (map h xs) s"
  by (induction xs arbitrary: s) (simp_all split: prod.splits)

text \<open>
  Claim C6. For a live handle, \<open>follow_edges\<close> runs over the node's left list exactly when
  \<open>is_reverse (h) XOR go_left\<close> and over the right list otherwise. The visitor receives the
  entries in list order, flipped when \<open>go_left\<close>; what the recording visitor has seen is a
  prefix of that sequence in which only the last answer can be \<open>false\<close>; the call returns
  \<open>false\<close> exactly when the last visited entry answered \<open>false\<close>, and it returns \<open>true\<close>
  only after the whole list. Recording does not change the result.
\<close>

theorem follow_edges_early_stop:
  assumes "map_of (graph g) (get_id h) = Some n"
  shows "\<exists>result s' seen.
     follow_edges_impl g h go_left (traced iteratee) (s, []) = Inr (result, s', seen)
     \<and> follow_edges_impl g h go_left iteratee s = Inr (result, s')
     \<and> early_stop seen
          (map (\<lambda>e. if go_left then flip e else e)
             (if get_is_reverse h \<noteq> go_left then left_edges n else right_edges n)) result"
proof -
  have run: "follow_edges_impl g h go_left f t
      = Inr (iterate_while f
          (map (\<lambda>e. if go_left then flip e else e)
             (if get_is_reverse h \<noteq> go_left then left_edges n else right_edges n)) t)"
    for f :: "handle_t \<Rightarrow> 't \<Rightarrow> bool \<times> 't" and t
    using assms by (simp add: follow_edges_impl_def iterate_while_map[symmetric])
  show ?thesis
    unfolding run
    using iterate_while_traced[of iteratee
      "map (\<lambda>e. if go_left then flip e else e)
         (if get_is_reverse h \<noteq> go_left then left_edges n else right_edges n)" s "[]"]
    by simp
qed

lemma three_edges_graph:
  "graph three_edges =
     [(2, \<lparr>sequence = ''ATG'', left_edges = [], right_edges = [2, 9, 3]\<rparr>),
      (1, \<lparr>sequence = ''CT'', left_edges = [5], right_edges = [5]\<rparr>),
      (4, \<lparr>sequence = ''GAC'', left_edges = [], right_edges = [5]\<rparr>)]"
  by (simp add: three_edges_def two_nodes_graph create_edge_def get_id_def unpack_number_def
      get_is_reverse_def unpack_bit_def flip_def toggle_bit_def modify_def lookup_default_def
      new_node_def push_left_def push_right_def Let_def)

text \<open>
  The witness looks left from the reverse handle of node 2, which walks the right list
  \<open>[2, 9, 3]\<close> of the node: the visitor is shown the flipped entries 3 and 8, answers
  \<open>false\<close> at 8, and is never shown the third entry.
\<close>

theorem follow_edges_early_stop_witness:
  "map_of (graph three_edges) (get_id 5)
     = Some \<lparr>sequence = ''ATG'', left_edges = [], right_edges = [2, 9, 3]\<rparr>
   \<and> (\<exists>result s' seen.
     follow_edges_impl three_edges 5 True (traced (\<lambda>e s. (e \<noteq> 8, Suc s))) (0 :: nat, []) = Inr (result, s', seen)
     \<and> follow_edges_impl three_edges 5 True (\<lambda>e s. (e \<noteq> 8, Suc s)) 0 = Inr (result, s')
     \<and> early_stop seen
          (map (\<lambda>e. if True then flip e else e)
             (if get_is_reverse 5 \<noteq> True
              then left_edges \<lparr>sequence = ''ATG'', left_edges = [], right_edges = [2, 9, 3]\<rparr>
              else right_edges \<lparr>sequence = ''ATG'', left_edges = [], right_edges = [2, 9, 3]\<rparr>)) result)
   \<and> follow_edges_impl three_edges 5 True (traced (\<lambda>e s. (e \<noteq> 8, Suc s))) (0 :: nat, [])
       = Inr (False, 2, [(3, True), (8, False)])
   \<and> map (\<lambda>e. if True then flip e else e)
         (if get_is_reverse 5 \<noteq> True
          then left_edges \<lparr>sequence = ''ATG'', left_edges = [], right_edges = [2, 9, 3]\<rparr>
          else right_edges \<lparr>sequence = ''ATG'', left_edges = [], right_edges = [2, 9, 3]\<rparr>)
       = [3, 8, 2 :: handle_t]"
proof -
  have live: "map_of (graph three_edges) (get_id 5)
      = Some \<lparr>sequence = ''ATG'', left_edges = [], right_edges = [2, 9, 3]\<rparr>"
    by (simp add: three_edges_graph get_id_def unpack_number_def)
  have rev5: "get_is_reverse 5"
    by (simp add: get_is_reverse_def unpack_bit_def)
  have flips: "flip 2 = 3" "flip 9 = 8" "flip 3 = 2"
    by (simp_all add: flip_def toggle_bit_def)
  have run: "follow_edges_impl three_edges 5 True (traced (\<lambda>e s. (e \<noteq> 8, Suc s))) (0 :: nat, [])
      = Inr (False, 2, [(3, True), (8, False)])"
    by (simp add: follow_edges_impl_def live rev5 flips traced_apply)
  have visited: "map (\<lambda>e. if True then flip e else e)
         (if get_is_reverse 5 \<noteq> True
          then left_edges \<lparr>sequence = ''ATG'', left_edges = [], right_edges = [2, 9, 3]\<rparr>
          else right_edges \<lparr>sequence = ''ATG'', left_edges = [], right_edges = [2, 9, 3]\<rparr>)
       = [3, 8, 2 :: handle_t]"
    by (simp add: rev5 flips)
  show ?thesis
    using live run visited
      follow_edges_early_stop[OF live, of True "\<lambda>e s. (e \<noteq> 8, Suc s)" 0]
    by (intro conjI)
qed

section \<open>Creating nodes\<close>

lemmas handle_eval = get_handle_def pack_def get_id_def unpack_number_def get_is_reverse_def
  unpack_bit_def flip_def toggle_bit_def forward_def

lemmas node_eval = create_handle_def create_handle_next_def create_edge_def empty_graph_def
  modify_def lookup_default_def touch_def new_node_def push_left_def push_right_def
  max_id_t_def min_id_t_def max_int64_def word_sless_alt Let_def

lemma one_node_graph: "graph one_node = [(1, \<lparr>sequence = ''A'', left_edges = [], right_edges = []\<rparr>)]"
  by (simp add: one_node_def node_eval handle_eval)

text \<open>
  Claim C8, amended. \<open>create_handle (sequence, id)\<close> with an id that is already live does
  not fail. It returns the forward handle of the id and replaces the node's record by
  a fresh one with the given sequence and no edges; the other node records, the set
  and order of the live ids, the paths and the occurrence index are unchanged.
\<close>

theorem create_handle_live_id:
  assumes "has_node g node_id" and "create_handle s node_id g = (g', h)"
  shows "h = get_handle node_id False
     \<and> map_of (graph g') node_id = Some \<lparr>sequence = s, left_edges = [], right_edges = []\<rparr>
     \<and> (\<forall>k. k \<noteq> node_id \<longrightarrow> map_of (graph g') k = map_of (graph g) k)
     \<and> map fst (graph g') = map fst (graph g)
     \<and> paths g' = paths g \<and> path_id g' = path_id g
     \<and> occurrences g' = occurrences g \<and> mappings g' = mappings g"
proof -
  have "node_id \<in> fst ` set (graph g)"
    using assms(1) by (simp add: has_node_def map_of_eq_None_iff)
  then have keys: "map fst (AList.update node_id (new_node s) (graph g)) = map fst (graph g)"
    by (simp add: update_keys)
  have g': "g' = g\<lparr>graph := AList.update node_id (new_node s) (graph g),
        max_id := max_id_t (max_id g) node_id, min_id := min_id_t (min_id g) node_id\<rparr>"
    and h: "h = get_handle node_id False"
    using assms(2) by (simp_all add: create_handle_def)
  show ?thesis
    unfolding g' h using keys by (simp add: update_conv' new_node_def)
qed

theorem create_handle_live_id_witness:
  "has_node one_node 1
   \<and> create_handle ''C'' 1 one_node = (fst (create_handle ''C'' 1 one_node), snd (create_handle ''C'' 1 one_node))
   \<and> snd (create_handle ''C'' 1 one_node) = get_handle 1 False
   \<and> map_of (graph (fst (create_handle ''C'' 1 one_node))) 1
        = Some \<lparr>sequence = ''C'', left_edges = [], right_edges = []\<rparr>"
proof -
  have live: "has_node one_node 1"
    by (simp add: has_node_def one_node_graph)
  have run: "create_handle ''C'' 1 one_node
      = (fst (create_handle ''C'' 1 one_node), snd (create_handle ''C'' 1 one_node))"
    by simp
  show ?thesis
    using live run create_handle_live_id[OF live run] by (intro conjI) simp_all
qed

text \<open>
  The claim as stated asks for a \<open>DuplicateId\<close> failure that leaves the graph unchanged.
  Creating node 1 a second time changes the graph: the sequence of node 1 becomes the
  new one.
\<close>

theorem create_handle_live_id_counterexample:
  "has_node one_node 1
   \<and> fst (create_handle ''C'' 1 one_node) \<noteq> one_node
   \<and> get_sequence one_node (get_handle 1 False) = Inr ''A''
   \<and> get_sequence (fst (create_handle ''C'' 1 one_node)) (get_handle 1 False) = Inr ''C''"
proof -
  have "graph (fst (create_handle ''C'' 1 one_node)) \<noteq> graph one_node"
    by (simp add: one_node_graph create_handle_def new_node_def)
  then have "fst (create_handle ''C'' 1 one_node) \<noteq> one_node"
    by auto
  moreover have "has_node one_node 1"
    by (simp add: has_node_def one_node_graph)
  moreover have "get_sequence one_node (get_handle 1 False) = Inr ''A''"
    by (simp add: get_sequence_def one_node_graph handle_eval)
  moreover have "get_sequence (fst (create_handle ''C'' 1 one_node)) (get_handle 1 False) = Inr ''C''"
    by (simp add: get_sequence_def one_node_graph create_handle_def new_node_def handle_eval)
  ultimately show ?thesis by simp
qed

lemma get_sequence_create_handle:
  assumes "node_id < 2 ^ 63" and "create_handle s node_id g = (g', h)"
  shows "\<not> get_is_reverse h \<and> get_id h = node_id \<and> get_sequence g' h = Inr s"
proof -
  have h: "h = get_handle node_id False" and g': "graph g' = AList.update node_id (new_node s) (graph g)"
    using assms(2) by (auto simp add: create_handle_def)
  have id: "get_id h = node_id"
    unfolding h by (rule get_id_get_handle) (rule assms(1))
  have fw: "\<not> get_is_reverse h"
    unfolding h by (simp add: get_is_reverse_get_handle)
  show ?thesis
    using id fw by (simp add: get_sequence_def g' update_conv' new_node_def)
qed

text \<open>
  Claim C9, amended. For an id that the handle encoding can hold (below \<open>2^63\<close>), the
  handle returned by \<open>create_handle\<close> is forward, its id is the supplied id, and
  \<open>get_sequence\<close> of it is the supplied sequence. When the id is omitted, the id is the
  tracked bound \<open>max_id\<close> plus one: \<open>max_id\<close> only grows between two calls of \<open>clear\<close>,
  so it can be larger than the largest live id.
\<close>

theorem create_handle_returns:
  "(node_id < 2 ^ 63 \<and> create_handle s node_id g = (g', h)
      \<longrightarrow> \<not> get_is_reverse h \<and> get_id h = node_id \<and> get_sequence g' h = Inr s)
   \<and> (max_id g + 1 < 2 ^ 63 \<and> create_handle_next s g = (g', h)
      \<longrightarrow> \<not> get_is_reverse h \<and> get_id h = max_id g + 1 \<and> get_sequence g' h = Inr s)"
  using get_sequence_create_handle[of node_id s g g' h]
    get_sequence_create_handle[of "max_id g + 1" s g g' h]
  unfolding create_handle_next_def by blast

lemma after_destroy_eq:
  "graph after_destroy = [(1, \<lparr>sequence = ''A'', left_edges = [], right_edges = []\<rparr>)]"
  "max_id after_destroy = 2"
  by (simp_all add: after_destroy_def destroy_handle_def on_bwd_edge_list_def node_eval handle_eval)

text \<open>
  The claim as stated takes the largest live id plus one. After creating nodes 1 and 2
  and destroying node 2, the only live id is 1, and the next node gets id 3.
\<close>

theorem create_handle_returns_counterexample:
  "map fst (graph after_destroy) = [1]
   \<and> get_id (snd (create_handle_next ''G'' after_destroy)) = 3"
  by (simp add: after_destroy_eq create_handle_next_def create_handle_def handle_eval)

theorem create_handle_returns_witness:
  "((5 :: id_t) < 2 ^ 63 \<and> create_handle ''GAT'' 5 one_node = (fst (create_handle ''GAT'' 5 one_node), get_handle 5 False))
   \<and> (\<not> get_is_reverse (get_handle 5 False) \<and> get_id (get_handle 5 False) = 5
       \<and> get_sequence (fst (create_handle ''GAT'' 5 one_node)) (get_handle 5 False) = Inr ''GAT'')
   \<and> (max_id one_node + 1 < 2 ^ 63
       \<and> create_handle_next ''GAT'' one_node = (fst (create_handle ''GAT'' 2 one_node), get_handle 2 False))
   \<and> (\<not> get_is_reverse (get_handle 2 False) \<and> get_id (get_handle 2 False) = max_id one_node + 1
       \<and> get_sequence (fst (create_handle ''GAT'' 2 one_node)) (get_handle 2 False) = Inr ''GAT'')"
proof -
  have m: "max_id one_node = 1"
    by (simp add: one_node_def node_eval)
  have a: "(5 :: id_t) < 2 ^ 63 \<and> create_handle ''GAT'' 5 one_node = (fst (create_handle ''GAT'' 5 one_node), get_handle 5 False)"
    by (simp add: create_handle_def)
  have b: "max_id one_node + 1 < 2 ^ 63
       \<and> create_handle_next ''GAT'' one_node = (fst (create_handle ''GAT'' 2 one_node), get_handle 2 False)"
    by (simp add: m create_handle_next_def create_handle_def)
  show ?thesis
    using a b
      create_handle_returns[of 5 "''GAT''" one_node "fst (create_handle ''GAT'' 5 one_node)" "get_handle 5 False"]
      create_handle_returns[of _ "''GAT''" one_node "fst (create_handle ''GAT'' 2 one_node)" "get_handle 2 False"]
    by blast
qed

section \<open>Splitting: two inputs\<close>

lemma atg_node_eq:
  "atg_node = empty_graph\<lparr>graph := [(1, \<lparr>sequence = ''ATG'', left_edges = [], right_edges = []\<rparr>)],
      max_id := 1, min_id := 1\<rparr>"
  by (simp add: atg_node_def node_eval)

lemmas divide_eval = divide_handle_def get_length_def get_sequence_def substr_def size_sub_def
  move_right_edges_def retarget_back_references_def chain_segments_def on_bwd_edge_list_def
  reverse_complement_def complement_def

text \<open>
  Claim C2. With no offsets, \<open>divide_handle\<close> returns before the part that turns the
  result back into the orientation of the input. For the reverse handle of node 1 the
  call leaves the graph unchanged and returns the forward handle of node 1, which is
  not the handle that was passed.
\<close>

theorem divide_handle_empty_reverse:
  "divide_handle (get_handle 1 True) [] one_node = Inr (one_node, [get_handle 1 False])
   \<and> get_handle 1 False \<noteq> get_handle 1 True"
  by (simp add: divide_handle_def get_length_def one_node_graph handle_eval)

lemma atg_len: "get_length atg_node (get_handle 1 True) = Inr 3"
  by (simp add: atg_node_eq get_length_def handle_eval)

lemma atg_sizes: "size_sub 3 1 = 2" "size_sub 3 2 = 1" "size_sub 1 2 = 18446744073709551615"
  by (simp_all add: size_sub_def)

lemma atg_divvy:
  "divvy 1 3 [2, 1] atg_node [get_handle 1 False]
     = Inr (atg_divvied, [get_handle 1 False, get_handle 2 False, get_handle 3 False])"
  by (simp add: atg_node_eq atg_divvied_def size_sub_def substr_def node_eval)

lemma atg_chain:
  "chain_segments [get_handle 1 False, get_handle 2 False, get_handle 3 False]
     (atg_divvied\<lparr>graph :=
        [(1, \<lparr>sequence = ''AT'', left_edges = [], right_edges = []\<rparr>),
         (2, \<lparr>sequence = ''G'', left_edges = [], right_edges = []\<rparr>),
         (3, \<lparr>sequence = ''TG'', left_edges = [], right_edges = []\<rparr>)]\<rparr>) = atg_divided"
proof -
  have "[1..<length [get_handle 1 False, get_handle 2 False, get_handle 3 False]] = [1, 2]"
    by (simp add: upt_rec)
  then show ?thesis
    by (simp add: chain_segments_def atg_divvied_def atg_divided_def node_eval handle_eval)
qed

lemma divide_handle_steps:
  assumes "get_length g h = Inr node_length"
    and "offsets \<noteq> []"
    and "forward_offsets =
           (if get_is_reverse h then map (\<lambda>off. size_sub node_length off) offsets else offsets)"
    and "divvy (get_id h) node_length forward_offsets g [forward h] = Inr (g1, return_val)"
    and "gr2 = modify (get_id h) (new_node [])
                 (\<lambda>n. n\<lparr>sequence := take (hd forward_offsets) (sequence n)\<rparr>) (graph g1)"
    and "gr3 = move_right_edges (get_id h) (get_id (last return_val)) gr2"
    and "gr4 = retarget_back_references (forward h) (last return_val) gr3"
    and "g5 = chain_segments return_val (g1\<lparr>graph := gr4\<rparr>)"
    and "(case map_of (occurrences g5) (get_id h) of
            None \<Rightarrow> Inr g5
          | Some bucket \<Rightarrow> rehome_steps return_val bucket g5) = Inr g6"
  shows "divide_handle h offsets g
           = Inr (g6, if get_is_reverse h then map flip (rev return_val) else return_val)"
proof -
  have upd: "g1\<lparr>graph := a, graph := b\<rparr> = g1\<lparr>graph := b\<rparr>" for a b
    by simp
  have sel: "graph (g1\<lparr>graph := a\<rparr>) = a" for a
    by simp
  show ?thesis
    unfolding divide_handle_def assms(1) and_then_Inr Let_def assms(3)[symmetric] assms(4)
      prod.case sel upd assms(5)[symmetric] assms(6)[symmetric] assms(7)[symmetric]
      assms(8)[symmetric] assms(9)
    using assms(2) by (simp split del: if_split)
qed

lemma atg_divide:
  "divide_handle (get_handle 1 True) [1, 2] atg_node
     = Inr (atg_divided, [get_handle 3 True, get_handle 2 True, get_handle 1 True])"
proof -
  have fw: "forward (get_handle 1 True) = get_handle 1 False" "get_is_reverse (get_handle 1 True)"
    "get_id (get_handle 1 True) = 1"
    by (simp_all add: handle_eval)
  have fo: "[2, 1] = (if get_is_reverse (get_handle 1 True) then map (\<lambda>off. size_sub 3 off) [1, 2] else [1, 2])"
    by (simp add: size_sub_def fw)
  have dv: "divvy (get_id (get_handle 1 True)) 3 [2, 1] atg_node [forward (get_handle 1 True)]
      = Inr (atg_divvied, [get_handle 1 False, get_handle 2 False, get_handle 3 False])"
    by (simp only: fw atg_divvy)
  have ids: "get_id (get_handle 3 False) = 3"
    by (simp add: handle_eval)
  let ?gr = "[(1, \<lparr>sequence = ''AT'', left_edges = [], right_edges = []\<rparr>),
         (2, \<lparr>sequence = ''G'', left_edges = [], right_edges = []\<rparr>),
         (3, \<lparr>sequence = ''TG'', left_edges = [], right_edges = []\<rparr>)]"
  have g2: "?gr = modify (get_id (get_handle 1 True)) (new_node [])
        (\<lambda>n. n\<lparr>sequence := take (hd [2, 1]) (sequence n)\<rparr>) (graph atg_divvied)"
    by (simp add: atg_divvied_def modify_def lookup_default_def fw)
  have g3: "?gr = move_right_edges (get_id (get_handle 1 True))
        (get_id (last [get_handle 1 False, get_handle 2 False, get_handle 3 False])) ?gr"
    by (simp add: move_right_edges_def modify_def lookup_default_def touch_def Let_def fw ids)
  have g4: "?gr = retarget_back_references (forward (get_handle 1 True))
        (last [get_handle 1 False, get_handle 2 False, get_handle 3 False]) ?gr"
    by (simp add: retarget_back_references_def ids lookup_default_def)
  have g5: "atg_divided = chain_segments [get_handle 1 False, get_handle 2 False, get_handle 3 False]
        (atg_divvied\<lparr>graph := ?gr\<rparr>)"
    by (simp only: atg_chain)
  have occ: "(case map_of (occurrences atg_divided) (get_id (get_handle 1 True)) of
            None \<Rightarrow> Inr atg_divided
          | Some bucket \<Rightarrow> rehome_steps [get_handle 1 False, get_handle 2 False, get_handle 3 False]
              bucket atg_divided) = Inr atg_divided"
    by (simp add: atg_divided_def empty_graph_def)
  have rv: "map flip (rev [get_handle 1 False, get_handle 2 False, get_handle 3 False])
      = [get_handle 3 True, get_handle 2 True, get_handle 1 True]"
    by (simp add: handle_eval)
  show ?thesis
    using divide_handle_steps[OF atg_len _ fo dv g2 g3 g4 g5 occ] fw(2) rv
    by simp
qed

text \<open>
  Claim C1. The offsets of a reverse handle are each subtracted from the node length
  but their order is not reversed. For the reverse handle of the node \<open>ATG\<close> and the
  offsets 1 and 2 the forward offsets are 2 and 1, the first length wraps around, and
  the pieces returned read \<open>CA\<close>, \<open>C\<close>, \<open>AT\<close>, while the handle read \<open>CAT\<close> before
  the call.
\<close>

theorem divide_handle_reverse_two_offsets:
  "(case divide_handle (get_handle 1 True) [1, 2] atg_node of
      Inl e \<Rightarrow> None
    | Inr (g, parts) \<Rightarrow> Some (parts, map (get_sequence g) parts))
   = Some ([get_handle 3 True, get_handle 2 True, get_handle 1 True],
           [Inr ''CA'', Inr ''C'', Inr ''AT''])
   \<and> get_sequence atg_node (get_handle 1 True) = Inr ''CAT''"
  unfolding atg_divide
  by (simp add: atg_divided_def atg_node_eq get_sequence_def handle_eval reverse_complement_def
      complement_def)

section \<open>Destroying a node\<close>
























section \<open>The node table holds every id once\<close>

text \<open>
  A call that throws leaves a state that is reachable as well: a failed allocation
  apart, the only operation that throws after it has changed the graph is
  \<open>divide_handle\<close> (\<open>substr\<close> in its first loop), and what it leaves behind is the
  result of the \<open>create_handle\<close> calls it has made. The keys of the node table are
  distinct in every reachable state; the lemmas follow the operations one by one.
\<close>

lemma distinct_on_bwd_edge_list:
  "distinct (map fst (on_bwd_edge_list next f gr)) = distinct (map fst gr)"
  by (simp add: on_bwd_edge_list_def distinct_modify)

lemma distinct_fold:
  assumes "\<And>x gr. distinct (map fst (F x gr)) = distinct (map fst gr)"
  shows "distinct (map fst (fold F xs gr)) = distinct (map fst gr)"
  by (induction xs arbitrary: gr) (simp_all add: assms)

lemma distinct_create_handle:
  "distinct (map fst (graph (fst (create_handle s node_id g)))) = distinct (map fst (graph g))"
  by (auto simp add: create_handle_def update_keys)

lemma distinct_create_edge:
  "distinct (map fst (graph (create_edge left right g))) = distinct (map fst (graph g))"
  by (simp add: create_edge_def Let_def distinct_modify)

lemma distinct_destroy_handle:
  assumes "distinct (map fst (graph g))"
  shows "distinct (map fst (graph (destroy_handle h g)))"
proof -
  have "distinct (map fst (fold (\<lambda>x. on_bwd_edge_list x (remove_first_where (\<lambda>bwd. get_id bwd = get_id h))) xs gr))
      = distinct (map fst gr)" for xs gr
    by (rule distinct_fold) (rule distinct_on_bwd_edge_list)
  then show ?thesis
    using assms by (simp add: destroy_handle_def Let_def distinct_delete distinct_touch)
qed

lemma distinct_destroy_edge:
  "distinct (map fst (graph (destroy_edge left right g))) = distinct (map fst (graph g))"
  by (simp add: destroy_edge_def Let_def distinct_modify distinct_on_bwd_edge_list)

lemma distinct_flip_back_references:
  "distinct (map fst (flip_back_references node_id left_side gr)) = distinct (map fst gr)"
  unfolding flip_back_references_def Let_def
  by (rule distinct_fold) (rule distinct_on_bwd_edge_list)

lemma distinct_apply_orientation:
  assumes "apply_orientation h g = Inr (g', h')" and "distinct (map fst (graph g))"
  shows "distinct (map fst (graph g'))"
proof (cases "get_is_reverse h")
  case False
  then show ?thesis using assms by (simp add: apply_orientation_def)
next
  case True
  then obtain st where
    "g' = g\<lparr>graph := modify (get_id h) (new_node [])
              (\<lambda>n. n\<lparr>left_edges := right_edges n, right_edges := left_edges n\<rparr>)
              (flip_back_references (get_id h) False
                (flip_back_references (get_id h) True
                  (modify (get_id h) (new_node [])
                     (\<lambda>n. n\<lparr>sequence := reverse_complement (sequence n)\<rparr>) (graph g)))),
            mappings := st\<rparr>"
    using assms(1) by (auto simp add: apply_orientation_def Let_def and_then_eq_Inr)
  then show ?thesis
    using assms(2) by (simp add: distinct_modify distinct_flip_back_references)
qed

lemma distinct_divvy:
  assumes "divvy node_id node_length offs g rv = Inr (g', rv')" and "distinct (map fst (graph g))"
  shows "distinct (map fst (graph g'))"
  using assms
proof (induction offs arbitrary: g rv)
  case Nil
  then show ?case by simp
next
  case (Cons off rest)
  from Cons.prems(1) obtain s where
    "(case create_handle_next s g of (g1, h1) \<Rightarrow> divvy node_id node_length rest g1 (rv @ [h1]))
       = Inr (g', rv')"
    unfolding divvy.simps Let_def and_then_eq_Inr by blast
  then have rest: "divvy node_id node_length rest (fst (create_handle_next s g))
             (rv @ [snd (create_handle_next s g)]) = Inr (g', rv')"
    by (simp add: case_prod_beta)
  have "distinct (map fst (graph (fst (create_handle_next s g))))"
    using Cons.prems(2) by (simp add: create_handle_next_def distinct_create_handle)
  then show ?case
    using Cons.IH[OF rest] by simp
qed

lemma distinct_move_right_edges:
  "distinct (map fst (move_right_edges node_id final_id gr)) = distinct (map fst gr)"
  by (simp add: move_right_edges_def Let_def distinct_modify distinct_touch)

lemma distinct_retarget_back_references:
  "distinct (map fst (retarget_back_references forward_handle final_handle gr)) = distinct (map fst gr)"
  unfolding retarget_back_references_def Let_def
  by (rule distinct_fold) (rule distinct_on_bwd_edge_list)

lemma distinct_chain_segments:
  "distinct (map fst (graph (chain_segments rv g))) = distinct (map fst (graph g))"
proof -
  have "distinct (map fst (graph (fold (\<lambda>i. create_edge (rv ! (i - 1)) (rv ! i)) is g)))
      = distinct (map fst (graph g))" for "is"
    by (induction "is" arbitrary: g) (simp_all add: distinct_create_edge)
  then show ?thesis
    by (simp add: chain_segments_def)
qed

lemma graph_rehome_step:
  assumes "rehome_step rv mapping g = Inr g'"
  shows "graph g' = graph g"
  using assms
  by (auto simp add: rehome_step_def Let_def and_then_eq_Inr split: if_splits)

lemma graph_rehome_steps:
  assumes "rehome_steps rv bucket g = Inr g'"
  shows "graph g' = graph g"
  using assms
proof (induction bucket arbitrary: g)
  case Nil
  then show ?case by simp
next
  case (Cons a bucket)
  then obtain g1 where "rehome_step rv a g = Inr g1" "rehome_steps rv bucket g1 = Inr g'"
    by (auto simp add: and_then_eq_Inr)
  then show ?case
    using Cons.IH[of g1] graph_rehome_step[of rv a g g1] by simp
qed

lemma divide_handle_Inr:
  assumes "divide_handle h offsets g = Inr (g', parts)" and "offsets \<noteq> []"
  shows "\<exists>node_length forward_offsets g1 rv g5.
     get_length g h = Inr node_length
     \<and> divvy (get_id h) node_length forward_offsets g [forward h] = Inr (g1, rv)
     \<and> g5 = chain_segments rv
              (g1\<lparr>graph := retarget_back_references (forward h) (last rv)
                 (move_right_edges (get_id h) (get_id (last rv))
                    (modify (get_id h) (new_node [])
                       (\<lambda>n. n\<lparr>sequence := take (hd forward_offsets) (sequence n)\<rparr>) (graph g1)))\<rparr>)
     \<and> (case map_of (occurrences g5) (get_id h) of
            None \<Rightarrow> Inr g5
          | Some bucket \<Rightarrow> rehome_steps rv bucket g5) = Inr g'
     \<and> parts = (if get_is_reverse h then map flip (rev rv) else rv)"
proof -
  from assms(1) obtain node_length where
    len: "get_length g h = Inr node_length"
    and r: "(let forward_offsets =
           (if get_is_reverse h then map (\<lambda>off. size_sub node_length off) offsets else offsets);
         forward_handle = forward h
     in if offsets = [] then Inr (g, [forward_handle])
        else
          and_then (divvy (get_id h) node_length forward_offsets g [forward_handle]) (\<lambda>(g1, return_val).
          let g2 = g1\<lparr>graph := modify (get_id h) (new_node [])
                       (\<lambda>n. n\<lparr>sequence := take (hd forward_offsets) (sequence n)\<rparr>) (graph g1)\<rparr>;
              g3 = g2\<lparr>graph := move_right_edges (get_id h) (get_id (last return_val)) (graph g2)\<rparr>;
              g4 = g3\<lparr>graph := retarget_back_references forward_handle (last return_val) (graph g3)\<rparr>;
              g5 = chain_segments return_val g4
          in and_then
               (case map_of (occurrences g5) (get_id h) of
                  None \<Rightarrow> Inr g5
                | Some bucket \<Rightarrow> rehome_steps return_val bucket g5) (\<lambda>g6.
             Inr (g6, if get_is_reverse h then map flip (rev return_val) else return_val))))
       = Inr (g', parts)"
    unfolding divide_handle_def and_then_eq_Inr by blast
  define fo where "fo = (if get_is_reverse h then map (\<lambda>off. size_sub node_length off) offsets else offsets)"
  from r assms(2) obtain p where
    dv: "divvy (get_id h) node_length fo g [forward h] = Inr p"
    and r2: "(case p of (g1, return_val) \<Rightarrow>
          let g2 = g1\<lparr>graph := modify (get_id h) (new_node [])
                       (\<lambda>n. n\<lparr>sequence := take (hd fo) (sequence n)\<rparr>) (graph g1)\<rparr>;
              g3 = g2\<lparr>graph := move_right_edges (get_id h) (get_id (last return_val)) (graph g2)\<rparr>;
              g4 = g3\<lparr>graph := retarget_back_references (forward h) (last return_val) (graph g3)\<rparr>;
              g5 = chain_segments return_val g4
          in and_then
               (case map_of (occurrences g5) (get_id h) of
                  None \<Rightarrow> Inr g5
                | Some bucket \<Rightarrow> rehome_steps return_val bucket g5) (\<lambda>g6.
             Inr (g6, if get_is_reverse h then map flip (rev return_val) else return_val)))
       = Inr (g', parts)"
    unfolding Let_def fo_def[symmetric] if_not_P[OF assms(2)] and_then_eq_Inr by blast
  obtain g1 rv where p: "p = (g1, rv)" by (cases p)
  define g5 where "g5 = chain_segments rv
              (g1\<lparr>graph := retarget_back_references (forward h) (last rv)
                 (move_right_edges (get_id h) (get_id (last rv))
                    (modify (get_id h) (new_node [])
                       (\<lambda>n. n\<lparr>sequence := take (hd fo) (sequence n)\<rparr>) (graph g1)))\<rparr>)"
  have sel: "graph (g1\<lparr>graph := a\<rparr>) = a" for a by simp
  have upd: "g1\<lparr>graph := a, graph := b\<rparr> = g1\<lparr>graph := b\<rparr>" for a b by simp
  from r2 have "and_then
               (case map_of (occurrences g5) (get_id h) of
                  None \<Rightarrow> Inr g5
                | Some bucket \<Rightarrow> rehome_steps rv bucket g5) (\<lambda>g6.
             Inr (g6, if get_is_reverse h then map flip (rev rv) else rv)) = Inr (g', parts)"
    unfolding p prod.case Let_def sel upd g5_def[symmetric] .
  then have "(case map_of (occurrences g5) (get_id h) of
                  None \<Rightarrow> Inr g5
                | Some bucket \<Rightarrow> rehome_steps rv bucket g5) = Inr g'"
    and "parts = (if get_is_reverse h then map flip (rev rv) else rv)"
    unfolding and_then_eq_Inr by auto
  then show ?thesis
    using len dv p g5_def by blast
qed

lemma distinct_divide_handle:
  assumes "divide_handle h offsets g = Inr (g', parts)" and "distinct (map fst (graph g))"
  shows "distinct (map fst (graph g'))"
proof (cases "offsets = []")
  case True
  then show ?thesis
    using assms by (auto simp add: divide_handle_def and_then_eq_Inr)
next
  case False
  from divide_handle_Inr[OF assms(1) False] obtain node_length fo g1 rv g5 where
    dv: "divvy (get_id h) node_length fo g [forward h] = Inr (g1, rv)"
    and g5: "g5 = chain_segments rv
              (g1\<lparr>graph := retarget_back_references (forward h) (last rv)
                 (move_right_edges (get_id h) (get_id (last rv))
                    (modify (get_id h) (new_node [])
                       (\<lambda>n. n\<lparr>sequence := take (hd fo) (sequence n)\<rparr>) (graph g1)))\<rparr>)"
    and re: "(case map_of (occurrences g5) (get_id h) of
            None \<Rightarrow> Inr g5
          | Some bucket \<Rightarrow> rehome_steps rv bucket g5) = Inr g'"
    by blast
  have d1: "distinct (map fst (graph g1))"
    using distinct_divvy[OF dv assms(2)] .
  have d5: "distinct (map fst (graph g5))"
    unfolding g5 using d1
    by (simp add: distinct_chain_segments distinct_retarget_back_references
        distinct_move_right_edges distinct_modify)
  have "graph g' = graph g5"
    using re graph_rehome_steps[of rv _ g5 g'] by (auto split: option.splits)
  then show ?thesis
    using d5 by simp
qed

lemma graph_assign_path:
  assumes "assign_path key p g = Inr g'"
  shows "graph g' = graph g"
  using assms by (auto simp add: assign_path_def and_then_eq_Inr)

lemma graph_create_path_handle:
  assumes "create_path_handle name g = Inr (g', path)"
  shows "graph g' = graph g"
proof -
  from assms obtain g2 where
    "assign_path (next_path_id g) (new_path name (next_path_id g))
       (g\<lparr>path_id := AList.update name (next_path_id g) (path_id g)\<rparr>) = Inr g2"
    and "g' = g2\<lparr>next_path_id := next_path_id g2 + 1\<rparr>"
    by (auto simp add: create_path_handle_def Let_def and_then_eq_Inr)
  then show ?thesis
    using graph_assign_path by fastforce
qed

lemma graph_append_occurrence:
  assumes "append_occurrence path h g = Inr (g', occ)"
  shows "graph g' = graph g"
  using assms by (auto simp add: append_occurrence_def and_then_eq_Inr)

lemma graph_destroy_path:
  assumes "destroy_path path g = Inr g'"
  shows "graph g' = graph g"
  using assms by (auto simp add: destroy_path_def Let_def and_then_eq_Inr)

lemma graph_clear:
  assumes "clear path_order g = Inr g'"
  shows "graph g' = []"
  using assms by (auto simp add: clear_def and_then_eq_Inr)

lemma distinct_read_nodes:
  assumes "read_nodes uninit n s gr = (gr', s')" and "distinct (map fst gr)"
  shows "distinct (map fst gr')"
  using assms
proof (induction n arbitrary: s gr)
  case 0
  then show ?case by simp
next
  case (Suc n)
  obtain node_id s1 where r1: "read_int64 uninit s = (node_id, s1)"
    by (cases "read_int64 uninit s")
  obtain node s2 where
    r2: "node_deserialize uninit (lookup_default node_id (new_node []) gr) s1 = (node, s2)"
    by (cases "node_deserialize uninit (lookup_default node_id (new_node []) gr) s1")
  from Suc.prems(1) have rest: "read_nodes uninit n s2 (AList.update node_id node gr) = (gr', s')"
    by (simp add: r1 r2)
  have "distinct (map fst (AList.update node_id node gr))"
    using Suc.prems(2) by (rule distinct_update)
  then show ?case
    using Suc.IH[OF rest] by simp
qed

lemma graph_read_paths:
  assumes "read_paths uninit n s g = Inr (g', s')"
  shows "graph g' = graph g"
  using assms
proof (induction n arbitrary: s g)
  case 0
  then show ?case by simp
next
  case (Suc n)
  from Suc.prems obtain p st s1 g1 where
    a: "assign_path (p_path_id p) p
          (g\<lparr>mappings := st, path_id := AList.update (p_name p) (p_path_id p) (path_id g)\<rparr>) = Inr g1"
    and rest: "read_paths uninit n s1 g1 = Inr (g', s')"
    by (auto simp add: and_then_eq_Inr)
  have "graph g1 = graph g"
    using graph_assign_path[OF a] by simp
  then show ?case
    using Suc.IH[OF rest] by simp
qed

lemma distinct_deserialize:
  assumes "deserialize uninit path_order input g = Inr g'"
  shows "distinct (map fst (graph g'))"
proof -
  from assms obtain g0 where c: "clear path_order g = Inr g0"
    unfolding deserialize_def and_then_eq_Inr by blast
  have g0: "graph g0 = []"
    using graph_clear[OF c] .
  obtain max_id_in s1 where r1:
    "read_int64 uninit \<lparr>in_chars = input, in_fail = False, in_reads = 0\<rparr> = (max_id_in, s1)"
    by (cases "read_int64 uninit \<lparr>in_chars = input, in_fail = False, in_reads = 0\<rparr>")
  obtain min_id_in s2 where r2: "read_int64 uninit s1 = (min_id_in, s2)"
    by (cases "read_int64 uninit s1")
  obtain next_path_id_in s3 where r3: "read_int64 uninit s2 = (next_path_id_in, s3)"
    by (cases "read_int64 uninit s2")
  obtain num_nodes s4 where r4: "read_int64 uninit s3 = (num_nodes, s4)"
    by (cases "read_int64 uninit s3")
  obtain gr s5 where r5: "read_nodes uninit (unat num_nodes) s4 [] = (gr, s5)"
    by (cases "read_nodes uninit (unat num_nodes) s4 []")
  obtain num_paths s6 where r6: "read_int64 uninit s5 = (num_paths, s6)"
    by (cases "read_int64 uninit s5")
  from assms obtain g1 s7 occs where
    rp: "read_paths uninit (unat num_paths) s6
           (g0\<lparr>max_id := max_id_in, min_id := min_id_in,
               next_path_id := next_path_id_in, graph := gr\<rparr>) = Inr (g1, s7)"
    and g': "g' = g1\<lparr>occurrences := occs\<rparr>"
    by (auto simp add: deserialize_def c g0 r1 r2 r3 r4 r5 r6 and_then_eq_Inr)
  have "distinct (map fst gr)"
    using distinct_read_nodes[OF r5] by simp
  moreover have "graph g1 = gr"
    using graph_read_paths[OF rp] by simp
  ultimately show ?thesis
    by (simp add: g')
qed

lemma reachable_distinct:
  assumes "reachable g"
  shows "distinct (map fst (graph g))"
  using assms
proof (induction rule: reachable.induct)
  case new_graph
  then show ?case by (simp add: empty_graph_def)
next
  case (by_create_handle g s node_id)
  then show ?case by (simp add: distinct_create_handle)
next
  case (by_create_handle_next g s)
  then show ?case by (simp add: create_handle_next_def distinct_create_handle)
next
  case (by_create_edge g left right)
  then show ?case by (simp add: distinct_create_edge)
next
  case (by_destroy_handle g h)
  then show ?case by (simp add: distinct_destroy_handle)
next
  case (by_destroy_edge g left right)
  then show ?case by (simp add: distinct_destroy_edge)
next
  case (by_apply_orientation g h g' h')
  then show ?case using distinct_apply_orientation by blast
next
  case (by_divide_handle g h offsets g' parts)
  then show ?case using distinct_divide_handle by blast
next
  case (by_clear g path_order g')
  then show ?case using graph_clear by fastforce
next
  case (by_create_path_handle g name g' path)
  then show ?case using graph_create_path_handle by fastforce
next
  case (by_append_occurrence g path h g' occ)
  then show ?case using graph_append_occurrence by fastforce
next
  case (by_destroy_path g path g')
  then show ?case using graph_destroy_path by fastforce
next
  case (by_deserialize g uninit path_order input g')
  then show ?case using distinct_deserialize by blast
qed

section \<open>Visiting every node\<close>

lemma two_nodes_reachable: "reachable two_nodes"
proof -
  define g1 where "g1 = fst (create_handle ''ATG'' 2 empty_graph)"
  define g2 where "g2 = fst (create_handle ''CT'' 1 g1)"
  define g3 where "g3 = fst (create_handle ''GAC'' 4 g2)"
  have eq: "two_nodes = create_edge (snd (create_handle ''ATG'' 2 empty_graph))
      (flip (snd (create_handle ''GAC'' 4 g2)))
      (create_edge (snd (create_handle ''ATG'' 2 empty_graph)) (snd (create_handle ''CT'' 1 g1)) g3)"
    by (simp add: two_nodes_def case_prod_beta g1_def g2_def g3_def)
  have "reachable g3"
    unfolding g3_def g2_def g1_def by (intro reachable.intros)
  then show ?thesis
    unfolding eq by (intro by_create_edge)
qed

lemma keys_are_live: "set (map fst (graph g)) = {node_id. has_node g node_id}"
  by (auto simp add: has_node_def map_of_eq_None_iff)

text \<open>
  Claim C7, amended. The loop of \<open>for_each_handle\<close> runs from \<open>graph.begin ()\<close> to
  \<open>graph.end ()\<close>: the order of the visits is the order in which the node table yields
  its entries, whatever that is (\<open>table_order\<close>, which yields every entry of the table
  once). In every reachable state the sequential \<open>for_each_handle\<close> then visits the
  forward handles of the live node ids in that order, every live id exactly once and
  no other id; it stops at the first visitor that answers \<open>false\<close> and returns that
  \<open>false\<close>, and returns \<open>true\<close> when every visitor answered \<open>true\<close>. Recording the visits
  does not change the result.
\<close>

theorem for_each_handle_order:
  assumes "reachable g" and "mset (table_order (graph g)) = mset (graph g)"
  shows "\<exists>result s' seen.
     for_each_handle_impl table_order g (traced iteratee) (s, []) = (result, s', seen)
     \<and> for_each_handle_impl table_order g iteratee s = (result, s')
     \<and> early_stop seen
          (map (\<lambda>node_id. get_handle node_id False) (map fst (table_order (graph g)))) result
     \<and> distinct (map fst (table_order (graph g)))
     \<and> set (map fst (table_order (graph g))) = {node_id. has_node g node_id}"
proof -
  have keys: "mset (map fst (table_order (graph g))) = mset (map fst (graph g))"
    using assms(2) by (metis mset_map)
  have once: "distinct (map fst (table_order (graph g)))"
    using reachable_distinct[OF assms(1)] keys by (metis mset_eq_imp_distinct_iff)
  have live: "set (map fst (table_order (graph g))) = {node_id. has_node g node_id}"
    using keys keys_are_live[of g] by (metis mset_eq_setD)
  have run: "for_each_handle_impl table_order g f t
      = iterate_while f
          (map (\<lambda>node_id. get_handle node_id False) (map fst (table_order (graph g)))) t"
    for f :: "handle_t \<Rightarrow> 't \<Rightarrow> bool \<times> 't" and t
    by (simp add: for_each_handle_impl_def iterate_while_map[symmetric])
  show ?thesis
    unfolding run
    using once live
      iterate_while_traced[of iteratee
        "map (\<lambda>node_id. get_handle node_id False) (map fst (table_order (graph g)))" s "[]"]
    by simp
qed

text \<open>
  The witness is the example graph, made by creating the nodes 2, 1 and 4, with a
  table that yields the latest entry first: the visitor is shown the handles of node 4
  and node 1, answers \<open>false\<close> at node 1, and is never shown node 2.
\<close>

theorem for_each_handle_order_witness:
  "reachable two_nodes
   \<and> mset (rev (graph two_nodes)) = mset (graph two_nodes)
   \<and> (\<exists>result s' seen.
     for_each_handle_impl rev two_nodes (traced (\<lambda>h s. (h \<noteq> 2, Suc s))) (0 :: nat, []) = (result, s', seen)
     \<and> for_each_handle_impl rev two_nodes (\<lambda>h s. (h \<noteq> 2, Suc s)) 0 = (result, s')
     \<and> early_stop seen
          (map (\<lambda>node_id. get_handle node_id False) (map fst (rev (graph two_nodes)))) result
     \<and> distinct (map fst (rev (graph two_nodes)))
     \<and> set (map fst (rev (graph two_nodes))) = {node_id. has_node two_nodes node_id})
   \<and> for_each_handle_impl rev two_nodes (traced (\<lambda>h s. (h \<noteq> 2, Suc s))) (0 :: nat, [])
       = (False, 2, [(8, True), (2, False)])
   \<and> map fst (rev (graph two_nodes)) = [4, 1, 2]"
proof -
  have order: "mset (rev (graph two_nodes)) = mset (graph two_nodes)"
    by simp
  have handles: "get_handle 4 False = 8" "get_handle 1 False = 2" "get_handle 2 False = 4"
    by (simp_all add: get_handle_def pack_def)
  have keys: "map fst (rev (graph two_nodes)) = [4, 1, 2]"
    by (simp add: two_nodes_graph)
  have run: "for_each_handle_impl rev two_nodes (traced (\<lambda>h s. (h \<noteq> 2, Suc s))) (0 :: nat, [])
      = (False, 2, [(8, True), (2, False)])"
    by (simp add: for_each_handle_impl_def keys handles traced_apply)
  show ?thesis
    using two_nodes_reachable order run keys
      for_each_handle_order[of two_nodes rev "\<lambda>h s. (h \<noteq> 2, Suc s)" 0,
        OF two_nodes_reachable order]
    by (intro conjI)
qed

text \<open>
  The claim as stated asks for increasing order of node id, and nothing in the loop
  sorts the ids. For the same graph and table, with a visitor that always answers
  \<open>true\<close>, node 4 is visited before node 1.
\<close>

theorem for_each_handle_order_counterexample:
  "for_each_handle_impl rev two_nodes (traced (\<lambda>h s. (True, s))) ((), [])
     = (True, (), [(get_handle 4 False, True), (get_handle 1 False, True), (get_handle 2 False, True)])
   \<and> \<not> (4 :: id_t) <s 1"
  by (simp add: for_each_handle_impl_def two_nodes_graph traced_apply word_sless_alt)

section \<open>The step count of a path\<close>

lemma chain_links:
  assumes "\<And>a. a \<in> set as \<Longrightarrow>
     map_option (\<lambda>m. (m_prev m, m_next m)) (cells st' a)
       = map_option (\<lambda>m. (m_prev m, m_next m)) (cells st a)"
  shows "chain st' prev as cur = chain st prev as cur"
  using assms
proof (induction as arbitrary: prev cur)
  case Nil
  then show ?case by simp
next
  case (Cons a as)
  have a: "map_option (\<lambda>m. (m_prev m, m_next m)) (cells st' a)
       = map_option (\<lambda>m. (m_prev m, m_next m)) (cells st a)"
    using Cons.prems by simp
  have rest: "chain st' p as c = chain st p as c" for p c
    using Cons.IH Cons.prems by simp
  show ?case
  proof (cases "cells st a")
    case None
    then show ?thesis using a by simp
  next
    case (Some m)
    then obtain m' where m': "cells st' a = Some m'" "m_prev m' = m_prev m" "m_next m' = m_next m"
      using a by (cases "cells st' a") auto
    show ?thesis
      by (simp add: Some m' rest)
  qed
qed

lemma chain_frame:
  assumes "\<And>a. a \<in> set as \<Longrightarrow> cells st' a = cells st a"
  shows "chain st' prev as cur = chain st prev as cur"
  by (rule chain_links) (simp add: assms)

lemma chain_unique:
  assumes "chain st prev as cur" and "chain st prev bs cur"
  shows "as = bs"
  using assms
proof (induction as arbitrary: prev bs cur)
  case Nil
  then show ?case by (cases bs) simp_all
next
  case (Cons a as)
  then obtain b bs' where bs: "bs = b # bs'"
    by (cases bs) auto
  with Cons.prems have ab: "a = b" by simp
  from Cons.prems obtain m where m: "cells st a = Some m"
    "chain st (Some a) as (m_next m)" "chain st (Some a) bs' (m_next m)"
    by (auto simp add: bs ab split: option.splits)
  show ?case
    using Cons.IH[OF m(2) m(3)] by (simp add: bs ab)
qed

lemma chain_head:
  assumes "chain st prev as cur"
  shows "cur = (if as = [] then None else Some (hd as))"
  using assms by (cases as) simp_all

lemma chain_live:
  assumes "chain st prev as cur" and "a \<in> set as"
  shows "cells st a \<noteq> None"
  using assms
  by (induction as arbitrary: prev cur) (auto split: option.splits)

lemma chain_next:
  assumes "chain st prev (xs @ ys) cur" and "xs \<noteq> []" and "cells st (last xs) = Some m"
    and "distinct (xs @ ys)"
  shows "m_next m = (if ys = [] then None else Some (hd ys))"
  using assms
proof (induction xs arbitrary: prev cur)
  case Nil
  then show ?case by simp
next
  case (Cons x xs)
  from Cons.prems(1) obtain mx where mx: "cells st x = Some mx"
    "chain st (Some x) (xs @ ys) (m_next mx)"
    by (auto split: option.splits)
  show ?case
  proof (cases "xs = []")
    case True
    then have "mx = m" using mx(1) Cons.prems(3) by simp
    then show ?thesis
      using chain_head[OF mx(2)] True by simp
  next
    case False
    then show ?thesis
      using Cons.IH[OF mx(2) False] Cons.prems(3,4) by simp
  qed
qed

lemma chain_prev:
  assumes "chain st prev as cur" and "a \<in> set as" and "cells st a = Some m"
  shows "m_prev m = prev \<or> (\<exists>b \<in> set as. m_prev m = Some b)"
  using assms
proof (induction as arbitrary: prev cur)
  case Nil
  then show ?case by simp
next
  case (Cons x xs)
  from Cons.prems(1) obtain mx where mx: "cells st x = Some mx" "m_prev mx = prev"
    "chain st (Some x) xs (m_next mx)"
    by (auto split: option.splits)
  show ?case
  proof (cases "a = x")
    case True
    then show ?thesis using mx Cons.prems(3) by simp
  next
    case False
    then have "a \<in> set xs" using Cons.prems(2) by simp
    from Cons.IH[OF mx(3) this Cons.prems(3)] show ?thesis by auto
  qed
qed

lemma chain_walk:
  assumes "chain st prev as cur" and "length as \<le> n"
  shows "walk st n cur = Inr as"
  using assms
proof (induction as arbitrary: prev cur n)
  case Nil
  then show ?case by simp
next
  case (Cons a as)
  from Cons.prems(2) obtain n' where n: "n = Suc n'" "length as \<le> n'"
    by (cases n) auto
  from Cons.prems(1) obtain m where m: "cur = Some a" "cells st a = Some m"
    "chain st (Some a) as (m_next m)"
    by (auto split: option.splits)
  show ?case
    using Cons.IH[OF m(3) n(2)] by (simp add: n m deref_def)
qed

lemma length_below:
  assumes "distinct as" and "\<forall>a \<in> set as. a < (n :: nat)"
  shows "length as \<le> n"
proof -
  have "card (set as) \<le> card {..<n}"
    using assms(2) by (intro card_mono) auto
  then show ?thesis
    using assms(1) by (simp add: distinct_card)
qed

text \<open>
  One new record spliced into a list, between \<open>xs\<close> and \<open>ys\<close>: what \<open>push_back\<close> and the
  branches of \<open>insert_after\<close> do to the store.
\<close>

lemma chain_insert:
  assumes "chain st prev (xs @ ys) cur" and "distinct (xs @ ys)" and "a' \<notin> set (xs @ ys)"
    and "cells st' a' = Some \<lparr>m_handle = h, m_path_id = k,
           m_prev = (if xs = [] then prev else Some (last xs)),
           m_next = (if ys = [] then None else Some (hd ys))\<rparr>"
    and "xs \<noteq> [] \<Longrightarrow> \<exists>m. cells st (last xs) = Some m \<and> cells st' (last xs) = Some (m\<lparr>m_next := Some a'\<rparr>)"
    and "ys \<noteq> [] \<Longrightarrow> \<exists>m. cells st (hd ys) = Some m \<and> cells st' (hd ys) = Some (m\<lparr>m_prev := Some a'\<rparr>)"
    and "\<And>a. a \<in> set (xs @ ys) \<Longrightarrow> (xs = [] \<or> a \<noteq> last xs) \<Longrightarrow> (ys = [] \<or> a \<noteq> hd ys) \<Longrightarrow>
           cells st' a = cells st a"
  shows "chain st' prev (xs @ a' # ys) (if xs = [] then Some a' else cur)"
  using assms
proof (induction xs arbitrary: prev cur)
  case Nil
  show ?case
  proof (cases ys)
    case Nil
    then show ?thesis using Nil.prems(4) by simp
  next
    case (Cons y ys')
    from Nil.prems(6) Cons obtain my where my: "cells st y = Some my"
      "cells st' y = Some (my\<lparr>m_prev := Some a'\<rparr>)"
      by auto
    have old: "chain st (Some y) ys' (m_next my)"
      using Nil.prems(1) my(1) by (simp add: Cons)
    have "chain st' (Some y) ys' (m_next my) = chain st (Some y) ys' (m_next my)"
    proof (rule chain_frame)
      fix a assume "a \<in> set ys'"
      then show "cells st' a = cells st a"
        using Nil.prems(2) Nil.prems(7)[of a] by (auto simp add: Cons)
    qed
    then show ?thesis
      using Nil.prems(4) my(2) old by (simp add: Cons)
  qed
next
  case (Cons x xs)
  from Cons.prems(1) obtain mx where mx: "cur = Some x" "cells st x = Some mx" "m_prev mx = prev"
    "chain st (Some x) (xs @ ys) (m_next mx)"
    by (auto split: option.splits)
  have d: "distinct (xs @ ys)" "a' \<notin> set (xs @ ys)" "x \<notin> set (xs @ ys)" "a' \<noteq> x"
    using Cons.prems(2,3) by auto
  show ?case
  proof (cases "xs = []")
    case True
    from Cons.prems(5) True have x': "cells st' x = Some (mx\<lparr>m_next := Some a'\<rparr>)"
      using mx(2) by simp
    have "chain st' (Some x) ([] @ a' # ys) (if [] = ([] :: addr list) then Some a' else m_next mx)"
    proof (rule Cons.IH[of "Some x" "m_next mx", unfolded True])
      show "chain st (Some x) ([] @ ys) (m_next mx)" using mx(4) True by simp
      show "distinct ([] @ ys)" using d(1) True by simp
      show "a' \<notin> set ([] @ ys)" using d(2) True by simp
      show "cells st' a' = Some \<lparr>m_handle = h, m_path_id = k,
           m_prev = (if [] = ([] :: addr list) then Some x else Some (last [])),
           m_next = (if ys = [] then None else Some (hd ys))\<rparr>"
        using Cons.prems(4) True by simp
      show "\<exists>m. cells st (last []) = Some m \<and> cells st' (last []) = Some (m\<lparr>m_next := Some a'\<rparr>)"
        if "[] \<noteq> ([] :: addr list)"
        using that by simp
      show "\<exists>m. cells st (hd ys) = Some m \<and> cells st' (hd ys) = Some (m\<lparr>m_prev := Some a'\<rparr>)"
        if "ys \<noteq> []"
        using Cons.prems(6) that by simp
      show "cells st' a = cells st a"
        if "a \<in> set ([] @ ys)" "[] = ([] :: addr list) \<or> a \<noteq> last []" "ys = [] \<or> a \<noteq> hd ys" for a
        using Cons.prems(7)[of a] that d(3) True by auto
    qed
    then show ?thesis
      using x' mx True by simp
  next
    case False
    have x': "cells st' x = cells st x"
    proof (rule Cons.prems(7))
      show "x \<in> set ((x # xs) @ ys)" by simp
      show "x # xs = [] \<or> x \<noteq> last (x # xs)"
        using False d(3) by auto
      show "ys = [] \<or> x \<noteq> hd ys"
        using d(3) by (cases ys) auto
    qed
    have "chain st' (Some x) (xs @ a' # ys) (if xs = [] then Some a' else m_next mx)"
    proof (rule Cons.IH)
      show "chain st (Some x) (xs @ ys) (m_next mx)" using mx(4) .
      show "distinct (xs @ ys)" using d(1) .
      show "a' \<notin> set (xs @ ys)" using d(2) .
      show "cells st' a' = Some \<lparr>m_handle = h, m_path_id = k,
           m_prev = (if xs = [] then Some x else Some (last xs)),
           m_next = (if ys = [] then None else Some (hd ys))\<rparr>"
        using Cons.prems(4) False by simp
      show "\<exists>m. cells st (last xs) = Some m \<and> cells st' (last xs) = Some (m\<lparr>m_next := Some a'\<rparr>)"
        if "xs \<noteq> []"
        using Cons.prems(5) that by simp
      show "\<exists>m. cells st (hd ys) = Some m \<and> cells st' (hd ys) = Some (m\<lparr>m_prev := Some a'\<rparr>)"
        if "ys \<noteq> []"
        using Cons.prems(6) that by simp
      show "cells st' a = cells st a"
        if "a \<in> set (xs @ ys)" "xs = [] \<or> a \<noteq> last xs" "ys = [] \<or> a \<noteq> hd ys" for a
        using Cons.prems(7)[of a] that False by auto
    qed
    then show ?thesis
      using x' mx False by simp
  qed
qed

lemma push_back_effect:
  assumes "cells st (next_free st) = None"
    and "\<And>t. p_tail p = Some t \<Longrightarrow> cells st t \<noteq> None"
  shows "\<exists>p' st'. push_back h p st = Inr (next_free st, p', st')
     \<and> next_free st' = Suc (next_free st)
     \<and> p_tail p' = Some (next_free st)
     \<and> p_head p' = (if p_tail p = None then Some (next_free st) else p_head p)
     \<and> p_count p' = p_count p + 1 \<and> p_path_id p' = p_path_id p \<and> p_name p' = p_name p
     \<and> cells st' (next_free st)
         = Some \<lparr>m_handle = h, m_path_id = p_path_id p, m_prev = p_tail p, m_next = None\<rparr>
     \<and> (\<forall>t m. p_tail p = Some t \<longrightarrow> cells st t = Some m \<longrightarrow>
           cells st' t = Some (m\<lparr>m_next := Some (next_free st)\<rparr>))
     \<and> (\<forall>a. a \<noteq> next_free st \<longrightarrow> Some a \<noteq> p_tail p \<longrightarrow> cells st' a = cells st a)"
proof (cases "p_tail p")
  case None
  then show ?thesis
    by (simp add: push_back_def new_mapping_def)
next
  case (Some t)
  then obtain mt where mt: "cells st t = Some mt"
    using assms(2) by auto
  then have "t \<noteq> next_free st"
    using assms(1) by auto
  then show ?thesis
    using Some mt by (simp add: push_back_def new_mapping_def update_cell_def)
qed

lemma insert_after_effect:
  assumes "cells st (next_free st) = None"
    and "\<And>mp. mapping = Some mp \<Longrightarrow> cells st mp \<noteq> None"
    and "nx = (case mapping of
                 Some mp \<Rightarrow> (case cells st mp of Some m \<Rightarrow> m_next m | None \<Rightarrow> None)
               | None \<Rightarrow> p_head p)"
    and "\<And>y. nx = Some y \<Longrightarrow> cells st y \<noteq> None \<and> Some y \<noteq> mapping"
  shows "\<exists>p' st'. insert_after h mapping p st = Inr (next_free st, p', st')
     \<and> next_free st' = Suc (next_free st)
     \<and> p_head p' = (if mapping = None then Some (next_free st) else p_head p)
     \<and> p_tail p' = (if mapping = None
                     then (if p_head p = None then Some (next_free st) else p_tail p)
                     else if mapping = p_tail p then Some (next_free st) else p_tail p)
     \<and> p_count p' = p_count p + 1 \<and> p_path_id p' = p_path_id p \<and> p_name p' = p_name p
     \<and> cells st' (next_free st)
         = Some \<lparr>m_handle = h, m_path_id = p_path_id p, m_prev = mapping, m_next = nx\<rparr>
     \<and> (\<forall>mp m. mapping = Some mp \<longrightarrow> cells st mp = Some m \<longrightarrow>
           cells st' mp = Some (m\<lparr>m_next := Some (next_free st)\<rparr>))
     \<and> (\<forall>y m. nx = Some y \<longrightarrow> cells st y = Some m \<longrightarrow>
           cells st' y = Some (m\<lparr>m_prev := Some (next_free st)\<rparr>))
     \<and> (\<forall>a. a \<noteq> next_free st \<longrightarrow> Some a \<noteq> mapping \<longrightarrow> Some a \<noteq> nx \<longrightarrow>
           cells st' a = cells st a)"
proof (cases mapping)
  case None
  show ?thesis
  proof (cases "p_head p")
    case hn: None
    then show ?thesis
      using None assms(3) by (simp add: insert_after_def new_mapping_def)
  next
    case (Some first)
    then have nx: "nx = Some first" using None assms(3) by simp
    then obtain mf where mf: "cells st first = Some mf"
      using assms(4) by auto
    then have "first \<noteq> next_free st"
      using assms(1) by auto
    then show ?thesis
      using None Some nx mf
      by (simp add: insert_after_def new_mapping_def update_cell_def)
  qed
next
  case (Some mp)
  then obtain mc where mc: "cells st mp = Some mc"
    using assms(2) by auto
  then have ne: "mp \<noteq> next_free st"
    using assms(1) by auto
  have nx: "nx = m_next mc"
    using assms(3) Some mc by simp
  show ?thesis
  proof (cases "m_next mc")
    case None
    then show ?thesis
      using Some mc ne nx
      by (simp add: insert_after_def new_mapping_def update_cell_def deref_def)
  next
    case sy: (Some y)
    then obtain my where my: "cells st y = Some my" "y \<noteq> mp"
      using assms(4)[of y] nx Some by auto
    then have "y \<noteq> next_free st"
      using assms(1) by auto
    then show ?thesis
      using Some mc ne nx sy my
      by (simp add: insert_after_def new_mapping_def update_cell_def deref_def)
  qed
qed

lemma path_ok_links:
  assumes "\<And>a. a \<in> set as \<Longrightarrow>
     map_option (\<lambda>m. (m_path_id m, m_prev m, m_next m)) (cells st' a)
       = map_option (\<lambda>m. (m_path_id m, m_prev m, m_next m)) (cells st a)"
  shows "path_ok st' k p as = path_ok st k p as"
proof -
  have links: "map_option (\<lambda>m. (m_prev m, m_next m)) (cells st' a)
       = map_option (\<lambda>m. (m_prev m, m_next m)) (cells st a)" if "a \<in> set as" for a
    using assms[OF that] by (cases "cells st a"; cases "cells st' a") auto
  have ids: "(case cells st' a of None \<Rightarrow> False | Some m \<Rightarrow> m_path_id m = k)
      = (case cells st a of None \<Rightarrow> False | Some m \<Rightarrow> m_path_id m = k)" if "a \<in> set as" for a
    using assms[OF that] by (cases "cells st a"; cases "cells st' a") auto
  have "chain st' None as (p_head p) = chain st None as (p_head p)"
    by (rule chain_links) (rule links)
  then show ?thesis
    using ids by (auto simp add: path_ok_def)
qed

lemma path_ok_frame:
  assumes "\<And>a. a \<in> set as \<Longrightarrow> cells st' a = cells st a"
  shows "path_ok st' k p as = path_ok st k p as"
  by (rule path_ok_links) (simp add: assms)

lemma path_ok_unique:
  assumes "path_ok st k p as" and "path_ok st k p bs"
  shows "as = bs"
  using assms chain_unique by (auto simp add: path_ok_def)

lemma path_ok_live:
  assumes "path_ok st k p as" and "a \<in> set as"
  shows "\<exists>m. cells st a = Some m \<and> m_path_id m = k"
  using assms by (auto simp add: path_ok_def split: option.splits)

lemma path_ok_insert:
  assumes ok: "path_ok st k p (xs @ ys)"
    and fresh: "cells st a' = None"
    and cell: "cells st' a' = Some \<lparr>m_handle = h, m_path_id = k,
           m_prev = (if xs = [] then None else Some (last xs)),
           m_next = (if ys = [] then None else Some (hd ys))\<rparr>"
    and left: "xs \<noteq> [] \<Longrightarrow>
           \<exists>m. cells st (last xs) = Some m \<and> cells st' (last xs) = Some (m\<lparr>m_next := Some a'\<rparr>)"
    and right: "ys \<noteq> [] \<Longrightarrow>
           \<exists>m. cells st (hd ys) = Some m \<and> cells st' (hd ys) = Some (m\<lparr>m_prev := Some a'\<rparr>)"
    and frame: "\<And>a. a \<in> set (xs @ ys) \<Longrightarrow> (xs = [] \<or> a \<noteq> last xs) \<Longrightarrow> (ys = [] \<or> a \<noteq> hd ys) \<Longrightarrow>
           cells st' a = cells st a"
    and p': "p_head p' = (if xs = [] then Some a' else p_head p)"
      "p_tail p' = (if ys = [] then Some a' else p_tail p)"
      "p_count p' = p_count p + 1" "p_path_id p' = p_path_id p"
  shows "path_ok st' k p' (xs @ a' # ys)"
proof -
  have new: "a' \<notin> set (xs @ ys)"
    using path_ok_live[OF ok] fresh by fastforce
  have d: "distinct (xs @ ys)"
    using ok by (simp add: path_ok_def)
  have c: "chain st None (xs @ ys) (p_head p)"
    using ok by (simp add: path_ok_def)
  have "chain st' None (xs @ a' # ys) (if xs = [] then Some a' else p_head p)"
    using c d new cell left right frame by (rule chain_insert)
  then have c': "chain st' None (xs @ a' # ys) (p_head p')"
    by (simp add: p'(1))
  have d': "distinct (xs @ a' # ys)"
    using d new by auto
  have t': "p_tail p' = Some (last (xs @ a' # ys))"
    using ok p'(2) by (auto simp add: path_ok_def)
  have n': "p_count p' = length (xs @ a' # ys)"
    using ok p'(3) by (simp add: path_ok_def)
  have k': "p_path_id p' = k"
    using ok p'(4) by (simp add: path_ok_def)
  have ids: "case cells st' a of None \<Rightarrow> False | Some m \<Rightarrow> m_path_id m = k"
    if "a \<in> set (xs @ a' # ys)" for a
  proof (cases "a = a'")
    case True
    then show ?thesis using cell by simp
  next
    case False
    then have a: "a \<in> set (xs @ ys)" using that by auto
    then obtain m where m: "cells st a = Some m" "m_path_id m = k"
      using path_ok_live[OF ok] by blast
    show ?thesis
    proof (cases "xs \<noteq> [] \<and> a = last xs")
      case True
      then show ?thesis using left m by auto
    next
      case nl: False
      show ?thesis
      proof (cases "ys \<noteq> [] \<and> a = hd ys")
        case True
        then show ?thesis using right m by auto
      next
        case False
        then have "cells st' a = cells st a"
          using frame[OF a] nl by blast
        then show ?thesis using m by simp
      qed
    qed
  qed
  show ?thesis
    unfolding path_ok_def using c' d' t' n' k' ids by simp
qed

lemma push_back_ok:
  assumes ok: "path_ok st k p as" and below: "\<And>a. cells st a \<noteq> None \<Longrightarrow> a < next_free st"
  shows "\<exists>p' st'. push_back h p st = Inr (next_free st, p', st')
     \<and> path_ok st' k p' (as @ [next_free st])
     \<and> next_free st' = Suc (next_free st)
     \<and> p_name p' = p_name p
     \<and> (\<forall>a. a \<notin> set as \<longrightarrow> a \<noteq> next_free st \<longrightarrow> cells st' a = cells st a)
     \<and> (\<forall>a \<in> set as. map_option m_handle (cells st' a) = map_option m_handle (cells st a))
     \<and> map_option m_handle (cells st' (next_free st)) = Some h"
proof -
  have fresh: "cells st (next_free st) = None"
    using below[of "next_free st"] by (cases "cells st (next_free st)") auto
  have tail: "p_tail p = (if as = [] then None else Some (last as))"
    and pid: "p_path_id p = k"
    using ok by (simp_all add: path_ok_def)
  have tl: "cells st t \<noteq> None" if "p_tail p = Some t" for t
    using that tail path_ok_live[OF ok, of t] by (auto split: if_splits)
  from push_back_effect[where h = h, OF fresh tl] obtain p' st' where
    run: "push_back h p st = Inr (next_free st, p', st')"
    and nf: "next_free st' = Suc (next_free st)"
    and p': "p_tail p' = Some (next_free st)"
      "p_head p' = (if p_tail p = None then Some (next_free st) else p_head p)"
      "p_count p' = p_count p + 1" "p_path_id p' = p_path_id p" "p_name p' = p_name p"
    and cell: "cells st' (next_free st)
         = Some \<lparr>m_handle = h, m_path_id = p_path_id p, m_prev = p_tail p, m_next = None\<rparr>"
    and upd: "\<And>t m. p_tail p = Some t \<Longrightarrow> cells st t = Some m \<Longrightarrow>
           cells st' t = Some (m\<lparr>m_next := Some (next_free st)\<rparr>)"
    and frame: "\<And>a. a \<noteq> next_free st \<Longrightarrow> Some a \<noteq> p_tail p \<Longrightarrow> cells st' a = cells st a"
    by blast
  have "path_ok st' k p' (as @ next_free st # [])"
  proof (rule path_ok_insert[where st = st and p = p and h = h])
    show "path_ok st k p (as @ [])" using ok by simp
    show "cells st (next_free st) = None" using fresh .
    show "cells st' (next_free st) = Some \<lparr>m_handle = h, m_path_id = k,
           m_prev = (if as = [] then None else Some (last as)),
           m_next = (if [] = ([] :: addr list) then None else Some (hd []))\<rparr>"
      using cell tail pid by simp
    show "\<exists>m. cells st (last as) = Some m \<and> cells st' (last as) = Some (m\<lparr>m_next := Some (next_free st)\<rparr>)"
      if "as \<noteq> []"
      using that tail upd[of "last as"] path_ok_live[OF ok, of "last as"] by auto
    show "\<exists>m. cells st (hd []) = Some m \<and> cells st' (hd []) = Some (m\<lparr>m_prev := Some (next_free st)\<rparr>)"
      if "[] \<noteq> ([] :: addr list)"
      using that by simp
    show "cells st' a = cells st a"
      if "a \<in> set (as @ [])" "as = [] \<or> a \<noteq> last as" "[] = ([] :: addr list) \<or> a \<noteq> hd []" for a
    proof (rule frame)
      show "a \<noteq> next_free st"
        using that(1) path_ok_live[OF ok, of a] fresh by auto
      show "Some a \<noteq> p_tail p"
        using that tail by auto
    qed
    show "p_head p' = (if as = [] then Some (next_free st) else p_head p)"
      using p'(2) tail by simp
    show "p_tail p' = (if [] = ([] :: addr list) then Some (next_free st) else p_tail p)"
      using p'(1) by simp
    show "p_count p' = p_count p + 1" using p'(3) .
    show "p_path_id p' = p_path_id p" using p'(4) .
  qed
  moreover have "cells st' a = cells st a" if "a \<notin> set as" "a \<noteq> next_free st" for a
  proof (rule frame[OF that(2)])
    show "Some a \<noteq> p_tail p"
      using that(1) tail last_in_set[of as] by (auto split: if_splits)
  qed
  moreover have "map_option m_handle (cells st' a) = map_option m_handle (cells st a)"
    if "a \<in> set as" for a
  proof (cases "Some a = p_tail p")
    case True
    then show ?thesis
      using upd[of a] path_ok_live[OF ok that] by auto
  next
    case False
    have "a \<noteq> next_free st"
      using path_ok_live[OF ok that] fresh by auto
    then have "cells st' a = cells st a"
      using False by (rule frame)
    then show ?thesis by simp
  qed
  ultimately show ?thesis
    using run nf p'(5) cell by auto
qed

lemma insert_after_ok:
  assumes ok: "path_ok st k p as" and below: "\<And>a. cells st a \<noteq> None \<Longrightarrow> a < next_free st"
    and pos: "mapping = None \<or> (\<exists>mp \<in> set as. mapping = Some mp)"
  shows "\<exists>p' st' as'. insert_after h mapping p st = Inr (next_free st, p', st')
     \<and> path_ok st' k p' as' \<and> set as' = insert (next_free st) (set as)
     \<and> next_free st' = Suc (next_free st)
     \<and> p_name p' = p_name p
     \<and> (\<forall>a. a \<notin> set as \<longrightarrow> a \<noteq> next_free st \<longrightarrow> cells st' a = cells st a)"
proof -
  have fresh: "cells st (next_free st) = None"
    using below[of "next_free st"] by (cases "cells st (next_free st)") auto
  have tail: "p_tail p = (if as = [] then None else Some (last as))"
    and pid: "p_path_id p = k" and d: "distinct as" and c: "chain st None as (p_head p)"
    using ok by (simp_all add: path_ok_def)
  obtain xs ys where split: "as = xs @ ys" "mapping = (if xs = [] then None else Some (last xs))"
  proof (cases mapping)
    case None
    then show ?thesis using that[of "[]" as] by simp
  next
    case (Some mp)
    then have "mp \<in> set as" using pos by auto
    then obtain pre post where "as = pre @ mp # post"
      by (auto simp add: in_set_conv_decomp)
    then show ?thesis using that[of "pre @ [mp]" post] Some by simp
  qed
  define nx where "nx = (case mapping of
                 Some mp \<Rightarrow> (case cells st mp of Some m \<Rightarrow> m_next m | None \<Rightarrow> None)
               | None \<Rightarrow> p_head p)"
  have nx: "nx = (if ys = [] then None else Some (hd ys))"
  proof (cases "xs = []")
    case True
    then show ?thesis
      using chain_head[OF c] split by (simp add: nx_def)
  next
    case False
    then have "last xs \<in> set as" using split(1) by simp
    then obtain m where m: "cells st (last xs) = Some m"
      using path_ok_live[OF ok] by blast
    have "m_next m = (if ys = [] then None else Some (hd ys))"
      using c False m d unfolding split(1) by (rule chain_next)
    then show ?thesis
      using False split(2) m by (simp add: nx_def)
  qed
  have live: "cells st mp \<noteq> None" if "mapping = Some mp" for mp
    using that pos path_ok_live[OF ok, of mp] by auto
  have nxt: "cells st y \<noteq> None \<and> Some y \<noteq> mapping" if "nx = Some y" for y
  proof -
    from that nx have ys: "ys \<noteq> []" "y = hd ys" by (auto split: if_splits)
    then have "y \<in> set as" using split(1) by simp
    then have "cells st y \<noteq> None" using path_ok_live[OF ok, of y] by auto
    moreover have "Some y \<noteq> mapping"
      using ys d split by (cases ys) (auto split: if_splits)
    ultimately show ?thesis by simp
  qed
  from insert_after_effect[where h = h, OF fresh live nx_def nxt] obtain p' st' where
    run: "insert_after h mapping p st = Inr (next_free st, p', st')"
    and nf: "next_free st' = Suc (next_free st)"
    and p': "p_head p' = (if mapping = None then Some (next_free st) else p_head p)"
      "p_tail p' = (if mapping = None
                     then (if p_head p = None then Some (next_free st) else p_tail p)
                     else if mapping = p_tail p then Some (next_free st) else p_tail p)"
      "p_count p' = p_count p + 1" "p_path_id p' = p_path_id p" "p_name p' = p_name p"
    and cell: "cells st' (next_free st)
         = Some \<lparr>m_handle = h, m_path_id = p_path_id p, m_prev = mapping, m_next = nx\<rparr>"
    and updl: "\<And>mp m. mapping = Some mp \<Longrightarrow> cells st mp = Some m \<Longrightarrow>
           cells st' mp = Some (m\<lparr>m_next := Some (next_free st)\<rparr>)"
    and updr: "\<And>y m. nx = Some y \<Longrightarrow> cells st y = Some m \<Longrightarrow>
           cells st' y = Some (m\<lparr>m_prev := Some (next_free st)\<rparr>)"
    and frame: "\<And>a. a \<noteq> next_free st \<Longrightarrow> Some a \<noteq> mapping \<Longrightarrow> Some a \<noteq> nx \<Longrightarrow>
           cells st' a = cells st a"
    by blast
  have tail': "p_tail p' = (if ys = [] then Some (next_free st) else p_tail p)"
  proof (cases "xs = []")
    case True
    then show ?thesis
      using p'(2) split chain_head[OF c] by simp
  next
    case False
    have "(Some (last xs) = p_tail p) = (ys = [])"
      using tail split(1) d False by (cases ys rule: rev_cases) auto
    then show ?thesis
      using p'(2) split(2) False by simp
  qed
  have "path_ok st' k p' (xs @ next_free st # ys)"
  proof (rule path_ok_insert[where st = st and p = p and h = h])
    show "path_ok st k p (xs @ ys)" using ok split(1) by simp
    show "cells st (next_free st) = None" using fresh .
    show "cells st' (next_free st) = Some \<lparr>m_handle = h, m_path_id = k,
           m_prev = (if xs = [] then None else Some (last xs)),
           m_next = (if ys = [] then None else Some (hd ys))\<rparr>"
      using cell pid split(2) nx by simp
    show "\<exists>m. cells st (last xs) = Some m \<and> cells st' (last xs) = Some (m\<lparr>m_next := Some (next_free st)\<rparr>)"
      if "xs \<noteq> []"
      using that split updl[of "last xs"] path_ok_live[OF ok, of "last xs"] by auto
    show "\<exists>m. cells st (hd ys) = Some m \<and> cells st' (hd ys) = Some (m\<lparr>m_prev := Some (next_free st)\<rparr>)"
      if "ys \<noteq> []"
      using that split nx updr[of "hd ys"] path_ok_live[OF ok, of "hd ys"] by auto
    show "cells st' a = cells st a"
      if "a \<in> set (xs @ ys)" "xs = [] \<or> a \<noteq> last xs" "ys = [] \<or> a \<noteq> hd ys" for a
    proof (rule frame)
      show "a \<noteq> next_free st"
        using that(1) split(1) path_ok_live[OF ok, of a] fresh by auto
      show "Some a \<noteq> mapping"
        using that(2) split(2) by auto
      show "Some a \<noteq> nx"
        using that(3) nx by auto
    qed
    show "p_head p' = (if xs = [] then Some (next_free st) else p_head p)"
      using p'(1) split(2) by simp
    show "p_tail p' = (if ys = [] then Some (next_free st) else p_tail p)"
      using tail' .
    show "p_count p' = p_count p + 1" using p'(3) .
    show "p_path_id p' = p_path_id p" using p'(4) .
  qed
  moreover have "set (xs @ next_free st # ys) = insert (next_free st) (set as)"
    using split(1) by auto
  moreover have "cells st' a = cells st a" if "a \<notin> set as" "a \<noteq> next_free st" for a
  proof (rule frame[OF that(2)])
    show "Some a \<noteq> mapping"
      using that(1) pos by auto
    show "Some a \<noteq> nx"
      using that(1) nx split(1) by (cases ys) auto
  qed
  ultimately show ?thesis
    using run nf p'(5) by blast
qed

lemma delete_from_chain:
  assumes "chain st prev as cur" and "distinct as" and "length as \<le> n"
  shows "delete_from n cur st = Inr (st\<lparr>cells := (\<lambda>a. if a \<in> set as then None else cells st a)\<rparr>)"
  using assms
proof (induction as arbitrary: prev cur n st)
  case Nil
  then show ?case by simp
next
  case (Cons a as)
  from Cons.prems(3) obtain n' where n: "n = Suc n'" "length as \<le> n'"
    by (cases n) auto
  from Cons.prems(1) obtain m where m: "cur = Some a" "cells st a = Some m"
    "chain st (Some a) as (m_next m)"
    by (auto split: option.splits)
  have a: "a \<notin> set as" "distinct as"
    using Cons.prems(2) by auto
  have "chain (delete_mapping a st) (Some a) as (m_next m) = chain st (Some a) as (m_next m)"
    by (rule chain_frame) (use a(1) in \<open>auto simp add: delete_mapping_def\<close>)
  then have c: "chain (delete_mapping a st) (Some a) as (m_next m)"
    using m(3) by simp
  have "delete_from n' (m_next m) (delete_mapping a st)
      = Inr ((delete_mapping a st)\<lparr>cells :=
               (\<lambda>b. if b \<in> set as then None else cells (delete_mapping a st) b)\<rparr>)"
    using c a(2) n(2) by (rule Cons.IH)
  moreover have "(delete_mapping a st)\<lparr>cells :=
               (\<lambda>b. if b \<in> set as then None else cells (delete_mapping a st) b)\<rparr>
      = st\<lparr>cells := (\<lambda>b. if b \<in> set (a # as) then None else cells st b)\<rparr>"
    by (simp add: delete_mapping_def fun_eq_iff)
  ultimately show ?case
    by (simp add: n m deref_def)
qed

lemma destroy_path_t_ok:
  assumes "path_ok st k p as" and "\<And>a. cells st a \<noteq> None \<Longrightarrow> a < next_free st"
  shows "destroy_path_t p st = Inr (st\<lparr>cells := (\<lambda>a. if a \<in> set as then None else cells st a)\<rparr>)"
proof -
  have "\<forall>a \<in> set as. a < next_free st"
    using path_ok_live[OF assms(1)] assms(2) by fastforce
  then have "length as \<le> next_free st"
    using assms(1) by (intro length_below) (simp_all add: path_ok_def)
  then show ?thesis
    unfolding destroy_path_t_def
    using assms(1) by (intro delete_from_chain[where prev = None]) (simp_all add: path_ok_def)
qed

lemma destroy_default_path: "destroy_path_t default_path st = Inr st"
  by (simp add: destroy_path_t_def default_path_def)

text \<open>
  The list of the path stored under a key, and the empty list for a key that is not in
  the table.
\<close>

lemma store_wf_replace:
  assumes wf: "store_wf ps st"
    and old: "case map_of ps k of None \<Rightarrow> as = [] | Some p \<Rightarrow> path_ok st k p as"
    and ok': "path_ok st' k p' as'"
    and frame: "\<And>a. a \<notin> set as \<Longrightarrow> a \<notin> set as' \<Longrightarrow> cells st' a = cells st a"
    and gone: "\<And>a. a \<in> set as \<Longrightarrow> a \<notin> set as' \<Longrightarrow> cells st' a = None"
    and new: "\<And>a. a \<in> set as' \<Longrightarrow> a \<notin> set as \<Longrightarrow> cells st a = None"
    and below: "\<And>a. cells st' a \<noteq> None \<Longrightarrow> a < next_free st'"
  shows "store_wf (AList.update k p' ps) st'"
proof -
  have others: "path_ok st' k2 q bs" if "k2 \<noteq> k" "path_ok st k2 q bs" for k2 q bs
  proof -
    have "cells st' b = cells st b" if b: "b \<in> set bs" for b
    proof (rule frame)
      obtain m where m: "cells st b = Some m" "m_path_id m = k2"
        using path_ok_live[OF \<open>path_ok st k2 q bs\<close> b] by blast
      show "b \<notin> set as"
      proof
        assume "b \<in> set as"
        then obtain p where "map_of ps k = Some p" "path_ok st k p as"
          using old by (cases "map_of ps k") auto
        then show False
          using path_ok_live[of st k p as b] \<open>b \<in> set as\<close> m \<open>k2 \<noteq> k\<close> by auto
      qed
      then show "b \<notin> set as'"
        using new[of b] m by auto
    qed
    then have "path_ok st' k2 q bs = path_ok st k2 q bs"
      by (rule path_ok_frame)
    then show ?thesis using that(2) by simp
  qed
  have w1: "\<exists>bs. path_ok st' k2 q bs" if "map_of (AList.update k p' ps) k2 = Some q" for k2 q
  proof (cases "k2 = k")
    case True
    then show ?thesis using that ok' by (auto simp add: update_conv')
  next
    case False
    then have "map_of ps k2 = Some q" using that by (simp add: update_conv')
    then obtain bs where "path_ok st k2 q bs"
      using wf unfolding store_wf_def by blast
    then show ?thesis using others[OF False] by blast
  qed
  have w2: "\<exists>q bs. map_of (AList.update k p' ps) (m_path_id m) = Some q
        \<and> path_ok st' (m_path_id m) q bs \<and> a \<in> set bs"
    if "cells st' a = Some m" for a m
  proof (cases "a \<in> set as'")
    case True
    then have "m_path_id m = k"
      using path_ok_live[OF ok' True] that by simp
    then show ?thesis
      using ok' True by (auto simp add: update_conv')
  next
    case False
    have na: "a \<notin> set as"
      using gone[of a] False that by auto
    then have "cells st a = Some m"
      using frame[OF na False] that by simp
    then obtain q bs where q: "map_of ps (m_path_id m) = Some q"
      "path_ok st (m_path_id m) q bs" "a \<in> set bs"
      using wf unfolding store_wf_def by blast
    have ne: "m_path_id m \<noteq> k"
    proof
      assume eq: "m_path_id m = k"
      then have "path_ok st k q as"
        using old q(1) by simp
      then have "bs = as"
        using q(2) eq path_ok_unique by blast
      then show False using q(3) na by simp
    qed
    then show ?thesis
      using q others[OF ne q(2)] by (auto simp add: update_conv')
  qed
  have "distinct (map fst (AList.update k p' ps))"
    using wf by (simp add: store_wf_def distinct_update)
  then show ?thesis
    unfolding store_wf_def using below w1 w2 by blast
qed

lemma store_wf_delete:
  assumes wf: "store_wf ps st"
    and old: "case map_of ps k of None \<Rightarrow> as = [] | Some p \<Rightarrow> path_ok st k p as"
    and frame: "\<And>a. a \<notin> set as \<Longrightarrow> cells st' a = cells st a"
    and gone: "\<And>a. a \<in> set as \<Longrightarrow> cells st' a = None"
    and below: "\<And>a. cells st' a \<noteq> None \<Longrightarrow> a < next_free st'"
  shows "store_wf (AList.delete k ps) st'"
proof -
  have others: "path_ok st' k2 q bs" if "k2 \<noteq> k" "path_ok st k2 q bs" for k2 q bs
  proof -
    have "cells st' b = cells st b" if b: "b \<in> set bs" for b
    proof (rule frame)
      obtain m where m: "cells st b = Some m" "m_path_id m = k2"
        using path_ok_live[OF \<open>path_ok st k2 q bs\<close> b] by blast
      show "b \<notin> set as"
      proof
        assume "b \<in> set as"
        then obtain p where "map_of ps k = Some p" "path_ok st k p as"
          using old by (cases "map_of ps k") auto
        then show False
          using path_ok_live[of st k p as b] \<open>b \<in> set as\<close> m \<open>k2 \<noteq> k\<close> by auto
      qed
    qed
    then have "path_ok st' k2 q bs = path_ok st k2 q bs"
      by (rule path_ok_frame)
    then show ?thesis using that(2) by simp
  qed
  have w1: "\<exists>bs. path_ok st' k2 q bs" if "map_of (AList.delete k ps) k2 = Some q" for k2 q
  proof -
    from that have "k2 \<noteq> k" "map_of ps k2 = Some q"
      by (auto simp add: delete_conv' split: if_splits)
    then show ?thesis
      using wf others unfolding store_wf_def by blast
  qed
  have w2: "\<exists>q bs. map_of (AList.delete k ps) (m_path_id m) = Some q
        \<and> path_ok st' (m_path_id m) q bs \<and> a \<in> set bs"
    if "cells st' a = Some m" for a m
  proof -
    have na: "a \<notin> set as"
      using gone[of a] that by auto
    then have "cells st a = Some m"
      using frame[OF na] that by simp
    then obtain q bs where q: "map_of ps (m_path_id m) = Some q"
      "path_ok st (m_path_id m) q bs" "a \<in> set bs"
      using wf unfolding store_wf_def by blast
    have ne: "m_path_id m \<noteq> k"
    proof
      assume eq: "m_path_id m = k"
      then have "path_ok st k q as"
        using old q(1) by simp
      then have "bs = as"
        using q(2) eq path_ok_unique by blast
      then show False using q(3) na by simp
    qed
    then show ?thesis
      using q others[OF ne q(2)] by (auto simp add: delete_conv')
  qed
  have "distinct (map fst (AList.delete k ps))"
    using wf by (simp add: store_wf_def distinct_delete)
  then show ?thesis
    unfolding store_wf_def using below w1 w2 by blast
qed

lemma store_wf_below:
  assumes "store_wf ps st" and "cells st a \<noteq> None"
  shows "a < next_free st"
  using assms by (simp add: store_wf_def)

lemma store_wf_path:
  assumes "store_wf ps st" and "map_of ps k = Some p"
  shows "\<exists>as. path_ok st k p as"
  using assms unfolding store_wf_def by blast

lemma store_wf_owner:
  assumes "store_wf ps st" and "cells st a = Some m"
  shows "\<exists>p as. map_of ps (m_path_id m) = Some p \<and> path_ok st (m_path_id m) p as \<and> a \<in> set as"
  using assms unfolding store_wf_def by blast

lemma store_wf_same:
  assumes "store_wf ps st" and "map_of ps k = Some p"
  shows "store_wf (AList.update k p ps) st"
proof -
  obtain as where as: "path_ok st k p as"
    using store_wf_path[OF assms] by blast
  show ?thesis
  proof (rule store_wf_replace[OF assms(1), where as = as and as' = as])
    show "case map_of ps k of None \<Rightarrow> as = [] | Some p \<Rightarrow> path_ok st k p as"
      using assms(2) as by simp
    show "path_ok st k p as" using as .
    show "cells st a \<noteq> None \<Longrightarrow> a < next_free st" for a
      using store_wf_below[OF assms(1)] .
  qed simp_all
qed

lemma store_wf_links:
  assumes wf: "store_wf ps st"
    and links: "\<And>a. map_option (\<lambda>m. (m_path_id m, m_prev m, m_next m)) (cells st' a)
       = map_option (\<lambda>m. (m_path_id m, m_prev m, m_next m)) (cells st a)"
    and nf: "next_free st' = next_free st"
  shows "store_wf ps st'"
proof -
  have ok: "path_ok st' k p as = path_ok st k p as" for k p as
    by (rule path_ok_links) (rule links)
  have live: "(cells st' a = None) = (cells st a = None)" for a
    using links[of a] by (cases "cells st a"; cases "cells st' a") auto
  have w2: "\<exists>p as. map_of ps (m_path_id m') = Some p \<and> path_ok st' (m_path_id m') p as \<and> a \<in> set as"
    if "cells st' a = Some m'" for a m'
  proof -
    have "map_option (\<lambda>m. (m_path_id m, m_prev m, m_next m)) (cells st a)
        = Some (m_path_id m', m_prev m', m_next m')"
      using links[of a] that by simp
    then obtain m where m: "cells st a = Some m" "m_path_id m = m_path_id m'"
      by (cases "cells st a") auto
    then show ?thesis
      using store_wf_owner[OF wf m(1)] ok by auto
  qed
  have w1: "\<exists>as. path_ok st' k p as" if "map_of ps k = Some p" for k p
    using store_wf_path[OF wf that] ok by simp
  have w3: "a < next_free st'" if "cells st' a \<noteq> None" for a
    using store_wf_below[OF wf, of a] that live nf by simp
  have "distinct (map fst ps)"
    using wf by (simp add: store_wf_def)
  then show ?thesis
    unfolding store_wf_def using w1 w2 w3 by blast
qed

lemma insert_after_wf:
  assumes wf: "store_wf ps st" and look: "map_of ps k = Some p"
    and pos: "mapping = None \<or> (\<exists>mp m. mapping = Some mp \<and> cells st mp = Some m \<and> m_path_id m = k)"
  shows "\<exists>p' st'. insert_after h mapping p st = Inr (next_free st, p', st')
     \<and> store_wf (AList.update k p' ps) st'
     \<and> (\<exists>m. cells st' (next_free st) = Some m \<and> m_path_id m = k)
     \<and> (\<forall>a m. cells st a = Some m \<longrightarrow> (\<exists>m'. cells st' a = Some m' \<and> m_path_id m' = m_path_id m))"
proof -
  obtain as where as: "path_ok st k p as"
    using store_wf_path[OF wf look] by blast
  have below: "a < next_free st" if "cells st a \<noteq> None" for a
    using store_wf_below[OF wf that] .
  have pos': "mapping = None \<or> (\<exists>mp \<in> set as. mapping = Some mp)"
  proof (cases mapping)
    case None
    then show ?thesis by simp
  next
    case (Some mp)
    then obtain m where m: "cells st mp = Some m" "m_path_id m = k"
      using pos by auto
    obtain q bs where q: "map_of ps (m_path_id m) = Some q" "path_ok st (m_path_id m) q bs"
      "mp \<in> set bs"
      using store_wf_owner[OF wf m(1)] by blast
    then have "bs = as"
      using as look m(2) path_ok_unique by fastforce
    then show ?thesis using Some q(3) by simp
  qed
  from insert_after_ok[OF as below pos', of h] obtain p' st' as' where
    run: "insert_after h mapping p st = Inr (next_free st, p', st')"
    and ok': "path_ok st' k p' as'" and set': "set as' = insert (next_free st) (set as)"
    and nf: "next_free st' = Suc (next_free st)"
    and frame: "\<And>a. a \<notin> set as \<Longrightarrow> a \<noteq> next_free st \<Longrightarrow> cells st' a = cells st a"
    by blast
  have fresh: "cells st (next_free st) = None"
    using below[of "next_free st"] by (cases "cells st (next_free st)") auto
  have pid: "\<exists>m'. cells st' a = Some m' \<and> m_path_id m' = m_path_id m" if "cells st a = Some m" for a m
  proof (cases "a \<in> set as")
    case True
    then have "a \<in> set as'" using set' by simp
    then show ?thesis
      using path_ok_live[OF ok'] path_ok_live[OF as True] that by fastforce
  next
    case False
    moreover have "a \<noteq> next_free st" using that fresh by auto
    ultimately show ?thesis using frame that by simp
  qed
  have below': "a < next_free st'" if "cells st' a \<noteq> None" for a
  proof (cases "a \<in> set as'")
    case True
    then show ?thesis
      using set' nf path_ok_live[OF as, of a] below[of a] by auto
  next
    case False
    then have "cells st' a = cells st a"
      using frame[of a] set' by auto
    then show ?thesis
      using that below[of a] nf by simp
  qed
  have "store_wf (AList.update k p' ps) st'"
  proof (rule store_wf_replace[OF wf, where as = as and as' = as'])
    show "case map_of ps k of None \<Rightarrow> as = [] | Some p \<Rightarrow> path_ok st k p as"
      using look as by simp
    show "path_ok st' k p' as'" using ok' .
    show "cells st' a = cells st a" if "a \<notin> set as" "a \<notin> set as'" for a
      using that frame[of a] set' by auto
    show "cells st' a = None" if "a \<in> set as" "a \<notin> set as'" for a
      using that set' by auto
    show "cells st a = None" if "a \<in> set as'" "a \<notin> set as" for a
      using that set' fresh by auto
    show "a < next_free st'" if "cells st' a \<noteq> None" for a
      using below'[OF that] .
  qed
  moreover have "\<exists>m. cells st' (next_free st) = Some m \<and> m_path_id m = k"
    using path_ok_live[OF ok', of "next_free st"] set' by simp
  ultimately show ?thesis
    using run pid by blast
qed

lemma insert_run_wf:
  assumes "store_wf ps st" and "map_of ps k = Some p"
    and "mapping = None \<or> (\<exists>mp m. mapping = Some mp \<and> cells st mp = Some m \<and> m_path_id m = k)"
  shows "\<exists>p' st' occs'. insert_run flipped rs mapping p st occs = Inr (p', st', occs')
     \<and> store_wf (AList.update k p' ps) st'
     \<and> (\<forall>a m. cells st a = Some m \<longrightarrow> (\<exists>m'. cells st' a = Some m' \<and> m_path_id m' = m_path_id m))"
  using assms
proof (induction rs arbitrary: mapping p st occs ps)
  case Nil
  then show ?case
    using store_wf_same by simp
next
  case (Cons r rs)
  from insert_after_wf[OF Cons.prems, of "if flipped then flip r else r"] obtain p1 st1 where
    run: "insert_after (if flipped then flip r else r) mapping p st = Inr (next_free st, p1, st1)"
    and wf1: "store_wf (AList.update k p1 ps) st1"
    and new: "\<exists>m. cells st1 (next_free st) = Some m \<and> m_path_id m = k"
    and pid: "\<And>a m. cells st a = Some m \<Longrightarrow> \<exists>m'. cells st1 a = Some m' \<and> m_path_id m' = m_path_id m"
    by blast
  have look1: "map_of (AList.update k p1 ps) k = Some p1"
    by (simp add: update_conv')
  have pos1: "Some (next_free st) = None
      \<or> (\<exists>mp m. Some (next_free st) = Some mp \<and> cells st1 mp = Some m \<and> m_path_id m = k)"
    using new by simp
  from Cons.IH[OF wf1 look1 pos1, of "modify (get_id r) [] (\<lambda>b. b @ [next_free st]) occs"]
  obtain p' st' occs' where
    rest: "insert_run flipped rs (Some (next_free st)) p1 st1
             (modify (get_id r) [] (\<lambda>b. b @ [next_free st]) occs) = Inr (p', st', occs')"
    and wf': "store_wf (AList.update k p' (AList.update k p1 ps)) st'"
    and pid': "\<And>a m. cells st1 a = Some m \<Longrightarrow> \<exists>m'. cells st' a = Some m' \<and> m_path_id m' = m_path_id m"
    by blast
  have "\<exists>m'. cells st' a = Some m' \<and> m_path_id m' = m_path_id m" if "cells st a = Some m" for a m
    using pid[OF that] pid' by fastforce
  then show ?case
    using run rest wf' by simp
qed

section \<open>The operations keep the step lists well formed\<close>

lemma rehome_step_wf:
  assumes wf: "paths_wf g" and run: "rehome_step rv mapping g = Inr g'"
  shows "paths_wf g'"
proof -
  from run obtain m where m: "cells (mappings g) mapping = Some m"
    by (auto simp add: rehome_step_def and_then_eq_Inr deref_def split: option.splits)
  have swf: "store_wf (paths g) (mappings g)"
    using wf by (simp add: paths_wf_def)
  obtain p as where p: "map_of (paths g) (m_path_id m) = Some p"
    "path_ok (mappings g) (m_path_id m) p as" "mapping \<in> set as"
    using store_wf_owner[OF swf m] by blast
  have look: "lookup_default (m_path_id m) default_path (paths g) = p"
    using p(1) by (simp add: lookup_default_def)
  define flipped where "flipped = get_is_reverse (m_handle m)"
  define rs where "rs = (if flipped then rev (tl rv) else tl rv)"
  define start where "start = (if flipped then m_prev m else Some mapping)"
  have pos: "start = None
      \<or> (\<exists>mp m'. start = Some mp \<and> cells (mappings g) mp = Some m' \<and> m_path_id m' = m_path_id m)"
  proof (cases flipped)
    case False
    then show ?thesis using m by (simp add: start_def)
  next
    case True
    have c: "chain (mappings g) None as (p_head p)"
      using p(2) by (simp add: path_ok_def)
    from chain_prev[OF c p(3) m] show ?thesis
      using True path_ok_live[OF p(2)] by (auto simp add: start_def)
  qed
  from insert_run_wf[OF swf p(1) pos, of flipped rs "occurrences g"] obtain p' st' occs' where
    ir: "insert_run flipped rs start p (mappings g) (occurrences g) = Inr (p', st', occs')"
    and wf': "store_wf (AList.update (m_path_id m) p' (paths g)) st'"
    by blast
  have "rehome_step rv mapping g
      = Inr (g\<lparr>paths := AList.update (m_path_id m) p' (paths g), mappings := st',
               occurrences := occs'\<rparr>)"
  proof (cases flipped)
    case True
    then show ?thesis
      using ir m look
      by (simp add: rehome_step_def deref_def rs_def start_def flipped_def[symmetric])
  next
    case False
    then show ?thesis
      using ir m look
      by (simp add: rehome_step_def deref_def rs_def start_def flipped_def[symmetric])
  qed
  then show ?thesis
    using run wf' by (auto simp add: paths_wf_def)
qed

lemma rehome_steps_wf:
  assumes "paths_wf g" and "rehome_steps rv bucket g = Inr g'"
  shows "paths_wf g'"
  using assms
proof (induction bucket arbitrary: g)
  case Nil
  then show ?case by simp
next
  case (Cons mapping rest)
  from Cons.prems(2) obtain g1 where
    g1: "rehome_step rv mapping g = Inr g1" "rehome_steps rv rest g1 = Inr g'"
    by (auto simp add: and_then_eq_Inr)
  show ?case
    using Cons.IH[OF rehome_step_wf[OF Cons.prems(1) g1(1)] g1(2)] .
qed

lemma paths_create_handle:
  "paths (fst (create_handle s node_id g)) = paths g"
  "mappings (fst (create_handle s node_id g)) = mappings g"
  "occurrences (fst (create_handle s node_id g)) = occurrences g"
  by (simp_all add: create_handle_def)

lemma paths_create_edge:
  "paths (create_edge left right g) = paths g"
  "mappings (create_edge left right g) = mappings g"
  "occurrences (create_edge left right g) = occurrences g"
  by (simp_all add: create_edge_def Let_def)

lemma paths_divvy:
  assumes "divvy node_id node_length offs g rv = Inr (g', rv')"
  shows "paths g' = paths g \<and> mappings g' = mappings g \<and> occurrences g' = occurrences g"
  using assms
proof (induction offs arbitrary: g rv)
  case Nil
  then show ?case by simp
next
  case (Cons off rest)
  from Cons.prems(1) obtain s where
    "(case create_handle_next s g of (g1, h1) \<Rightarrow> divvy node_id node_length rest g1 (rv @ [h1]))
       = Inr (g', rv')"
    unfolding divvy.simps Let_def and_then_eq_Inr by blast
  then have rest: "divvy node_id node_length rest (fst (create_handle_next s g))
             (rv @ [snd (create_handle_next s g)]) = Inr (g', rv')"
    by (simp add: case_prod_beta)
  show ?case
    using Cons.IH[OF rest] by (simp add: create_handle_next_def paths_create_handle)
qed

lemma paths_chain_segments:
  "paths (chain_segments rv g) = paths g \<and> mappings (chain_segments rv g) = mappings g
   \<and> occurrences (chain_segments rv g) = occurrences g"
proof -
  have "paths (fold (\<lambda>i. create_edge (rv ! (i - 1)) (rv ! i)) is g) = paths g
      \<and> mappings (fold (\<lambda>i. create_edge (rv ! (i - 1)) (rv ! i)) is g) = mappings g
      \<and> occurrences (fold (\<lambda>i. create_edge (rv ! (i - 1)) (rv ! i)) is g) = occurrences g" for "is"
    by (induction "is" arbitrary: g) (simp_all add: paths_create_edge)
  then show ?thesis
    by (simp add: chain_segments_def)
qed

lemma divide_handle_wf:
  assumes wf: "paths_wf g" and run: "divide_handle h offsets g = Inr (g', parts)"
  shows "paths_wf g'"
proof (cases "offsets = []")
  case True
  then show ?thesis
    using assms by (auto simp add: divide_handle_def and_then_eq_Inr)
next
  case False
  from divide_handle_Inr[OF run False] obtain node_length fo g1 rv g5 where
    dv: "divvy (get_id h) node_length fo g [forward h] = Inr (g1, rv)"
    and g5: "g5 = chain_segments rv
              (g1\<lparr>graph := retarget_back_references (forward h) (last rv)
                 (move_right_edges (get_id h) (get_id (last rv))
                    (modify (get_id h) (new_node [])
                       (\<lambda>n. n\<lparr>sequence := take (hd fo) (sequence n)\<rparr>) (graph g1)))\<rparr>)"
    and re: "(case map_of (occurrences g5) (get_id h) of
            None \<Rightarrow> Inr g5
          | Some bucket \<Rightarrow> rehome_steps rv bucket g5) = Inr g'"
    by blast
  have "paths g5 = paths g" "mappings g5 = mappings g"
    using paths_divvy[OF dv] by (simp_all add: g5 paths_chain_segments)
  then have wf5: "paths_wf g5"
    using wf by (simp add: paths_wf_def)
  show ?thesis
  proof (cases "map_of (occurrences g5) (get_id h)")
    case None
    then show ?thesis using re wf5 by simp
  next
    case (Some bucket)
    then show ?thesis using re rehome_steps_wf[OF wf5] by simp
  qed
qed

lemma flip_occurrences_wf:
  assumes "store_wf ps st" and "flip_occurrences bucket st = Inr st'"
  shows "store_wf ps st'"
  using assms
proof (induction bucket arbitrary: st)
  case Nil
  then show ?case by simp
next
  case (Cons a rest)
  from Cons.prems(2) obtain st1 where
    st1: "update_cell a (\<lambda>m. m\<lparr>m_handle := flip (m_handle m)\<rparr>) st = Inr st1"
    "flip_occurrences rest st1 = Inr st'"
    by (auto simp add: and_then_eq_Inr)
  from st1(1) obtain m where m: "cells st a = Some m"
    "st1 = st\<lparr>cells := (cells st)(a \<mapsto> m\<lparr>m_handle := flip (m_handle m)\<rparr>)\<rparr>"
    by (auto simp add: update_cell_def split: option.splits)
  have "store_wf ps st1"
  proof (rule store_wf_links[OF Cons.prems(1)])
    show "map_option (\<lambda>m. (m_path_id m, m_prev m, m_next m)) (cells st1 b)
       = map_option (\<lambda>m. (m_path_id m, m_prev m, m_next m)) (cells st b)" for b
      using m by simp
    show "next_free st1 = next_free st"
      using m by simp
  qed
  then show ?case
    using Cons.IH st1(2) by blast
qed

lemma apply_orientation_wf:
  assumes wf: "paths_wf g" and run: "apply_orientation h g = Inr (g', h')"
  shows "paths_wf g'"
proof (cases "get_is_reverse h")
  case False
  then show ?thesis using assms by (simp add: apply_orientation_def)
next
  case True
  then obtain st where st: "(case map_of (occurrences g) (get_id h) of
                None \<Rightarrow> Inr (mappings g)
              | Some bucket \<Rightarrow> flip_occurrences bucket (mappings g)) = Inr st"
    and g': "paths g' = paths g" "mappings g' = st"
    using run by (auto simp add: apply_orientation_def Let_def and_then_eq_Inr)
  have "store_wf (paths g) st"
  proof (cases "map_of (occurrences g) (get_id h)")
    case None
    then show ?thesis using st wf by (simp add: paths_wf_def)
  next
    case (Some bucket)
    then show ?thesis
      using st wf flip_occurrences_wf[of "paths g" "mappings g" bucket st]
      by (simp add: paths_wf_def)
  qed
  then show ?thesis
    by (simp add: paths_wf_def g')
qed

section \<open>Creating, destroying and loading paths\<close>

lemma path_ok_disjoint:
  assumes "path_ok st k p as" and "path_ok st k2 q bs" and "k2 \<noteq> k"
  shows "set as \<inter> set bs = {}"
  using path_ok_live[OF assms(1)] path_ok_live[OF assms(2)] assms(3) by fastforce

lemma destroy_paths_all:
  assumes "distinct (map fst qs)"
    and "\<And>k p. (k, p) \<in> set qs \<Longrightarrow> \<exists>as. path_ok st k p as"
    and "\<And>a. cells st a \<noteq> None \<Longrightarrow> a < next_free st"
  shows "\<exists>st'. destroy_paths (map snd qs) st = Inr st' \<and> next_free st' = next_free st
     \<and> (\<forall>a. cells st' a = None
           \<or> (cells st' a = cells st a
              \<and> \<not> (\<exists>k p as. (k, p) \<in> set qs \<and> path_ok st k p as \<and> a \<in> set as)))"
  using assms
proof (induction qs arbitrary: st)
  case Nil
  then show ?case by simp
next
  case (Cons kp rest)
  obtain k p where kp: "kp = (k, p)" by (cases kp)
  obtain as where as: "path_ok st k p as"
    using Cons.prems(2)[of k p] kp by auto
  define st1 where "st1 = st\<lparr>cells := (\<lambda>a. if a \<in> set as then None else cells st a)\<rparr>"
  have d1: "destroy_path_t p st = Inr st1"
    unfolding st1_def using as Cons.prems(3) by (rule destroy_path_t_ok)
  have keep: "path_ok st1 k2 q bs" if "(k2, q) \<in> set rest" "path_ok st k2 q bs" for k2 q bs
  proof -
    have "k2 \<noteq> k"
      using that(1) Cons.prems(1) kp by (auto simp add: rev_image_eqI)
    then have "set as \<inter> set bs = {}"
      using path_ok_disjoint[OF as that(2)] by simp
    then have "path_ok st1 k2 q bs = path_ok st k2 q bs"
      by (intro path_ok_frame) (auto simp add: st1_def)
    then show ?thesis using that(2) by simp
  qed
  have "\<exists>st'. destroy_paths (map snd rest) st1 = Inr st' \<and> next_free st' = next_free st1
     \<and> (\<forall>a. cells st' a = None
           \<or> (cells st' a = cells st1 a
              \<and> \<not> (\<exists>k p as. (k, p) \<in> set rest \<and> path_ok st1 k p as \<and> a \<in> set as)))"
  proof (rule Cons.IH)
    show "distinct (map fst rest)" using Cons.prems(1) by simp
    show "\<exists>as. path_ok st1 k2 q as" if r: "(k2, q) \<in> set rest" for k2 q
    proof -
      obtain bs where "path_ok st k2 q bs"
        using Cons.prems(2)[of k2 q] r by auto
      then show ?thesis using keep[OF r] by blast
    qed
    show "a < next_free st1" if "cells st1 a \<noteq> None" for a
      using that Cons.prems(3)[of a] by (auto simp add: st1_def split: if_splits)
  qed
  then obtain st' where st': "destroy_paths (map snd rest) st1 = Inr st'"
    "next_free st' = next_free st1"
    and cells': "\<And>a. cells st' a = None
           \<or> (cells st' a = cells st1 a
              \<and> \<not> (\<exists>k p as. (k, p) \<in> set rest \<and> path_ok st1 k p as \<and> a \<in> set as))"
    by blast
  have "cells st' a = None
      \<or> (cells st' a = cells st a
         \<and> \<not> (\<exists>k' p' as'. (k', p') \<in> set (kp # rest) \<and> path_ok st k' p' as' \<and> a \<in> set as'))"
    for a
  proof (cases "cells st' a = None")
    case True
    then show ?thesis by simp
  next
    case False
    then have c: "cells st' a = cells st1 a"
      and no: "\<not> (\<exists>k p as. (k, p) \<in> set rest \<and> path_ok st1 k p as \<and> a \<in> set as)"
      using cells'[of a] by auto
    have na: "a \<notin> set as"
      using False c by (auto simp add: st1_def)
    have "\<not> (\<exists>k' p' as'. (k', p') \<in> set (kp # rest) \<and> path_ok st k' p' as' \<and> a \<in> set as')"
    proof
      assume "\<exists>k' p' as'. (k', p') \<in> set (kp # rest) \<and> path_ok st k' p' as' \<and> a \<in> set as'"
      then obtain k' p' as' where x: "(k', p') \<in> set (kp # rest)" "path_ok st k' p' as'" "a \<in> set as'"
        by blast
      show False
      proof (cases "(k', p') = (k, p)")
        case True
        then have "as' = as" using x(2) as path_ok_unique by blast
        then show False using x(3) na by simp
      next
        case False
        then have "(k', p') \<in> set rest" using x(1) kp by auto
        then show False using keep[OF _ x(2)] x(3) no by blast
      qed
    qed
    then show ?thesis
      using c na by (simp add: st1_def)
  qed
  then show ?case
    using d1 st' by (simp add: kp st1_def)
qed

lemma clear_wf:
  assumes wf: "paths_wf g" and order: "mset (path_order (paths g)) = mset (paths g)"
    and run: "clear path_order g = Inr g'"
  shows "paths_wf g' \<and> paths g' = [] \<and> (\<forall>a. cells (mappings g') a = None)
     \<and> next_free (mappings g') = next_free (mappings g)"
proof -
  have swf: "store_wf (paths g) (mappings g)"
    using wf by (simp add: paths_wf_def)
  have dk: "distinct (map fst (paths g))"
    using swf by (simp add: store_wf_def)
  have "mset (map fst (path_order (paths g))) = mset (map fst (paths g))"
    using order by (metis mset_map)
  then have d: "distinct (map fst (path_order (paths g)))"
    using dk by (metis mset_eq_imp_distinct_iff)
  have same: "set (path_order (paths g)) = set (paths g)"
    using order by (metis mset_eq_setD)
  have "\<exists>st'. destroy_paths (map snd (path_order (paths g))) (mappings g) = Inr st'
     \<and> next_free st' = next_free (mappings g)
     \<and> (\<forall>a. cells st' a = None
           \<or> (cells st' a = cells (mappings g) a
              \<and> \<not> (\<exists>k p as. (k, p) \<in> set (path_order (paths g))
                     \<and> path_ok (mappings g) k p as \<and> a \<in> set as)))"
  proof (rule destroy_paths_all[OF d])
    show "\<exists>as. path_ok (mappings g) k p as" if "(k, p) \<in> set (path_order (paths g))" for k p
    proof -
      have "map_of (paths g) k = Some p"
        using that same dk by simp
      then show ?thesis using store_wf_path[OF swf] by blast
    qed
    show "a < next_free (mappings g)" if "cells (mappings g) a \<noteq> None" for a
      using store_wf_below[OF swf that] .
  qed
  then obtain st' where st': "destroy_paths (map snd (path_order (paths g))) (mappings g) = Inr st'"
    "next_free st' = next_free (mappings g)"
    and cells': "\<And>a. cells st' a = None
           \<or> (cells st' a = cells (mappings g) a
              \<and> \<not> (\<exists>k p as. (k, p) \<in> set (path_order (paths g))
                     \<and> path_ok (mappings g) k p as \<and> a \<in> set as))"
    by blast
  have dead: "cells st' a = None" for a
  proof (rule ccontr)
    assume live: "cells st' a \<noteq> None"
    then have c: "cells st' a = cells (mappings g) a"
      and no: "\<not> (\<exists>k p as. (k, p) \<in> set (path_order (paths g))
                     \<and> path_ok (mappings g) k p as \<and> a \<in> set as)"
      using cells'[of a] by auto
    obtain m where m: "cells (mappings g) a = Some m"
      using live c by auto
    obtain p as where p: "map_of (paths g) (m_path_id m) = Some p"
      "path_ok (mappings g) (m_path_id m) p as" "a \<in> set as"
      using store_wf_owner[OF swf m] by blast
    have "(m_path_id m, p) \<in> set (path_order (paths g))"
      using p(1) same by (simp add: map_of_SomeD)
    then show False using no p by blast
  qed
  have g': "paths g' = []" "mappings g' = st'"
    using run st'(1) by (auto simp add: clear_def)
  have "store_wf [] st'"
    by (simp add: store_wf_def dead)
  then show ?thesis
    using g' dead st'(2) by (simp add: paths_wf_def)
qed

lemma assign_path_wf:
  assumes wf: "store_wf (paths g) st0"
    and okn: "path_ok (mappings g) key pnew asn"
    and fresh: "\<And>a. a \<in> set asn \<Longrightarrow> cells st0 a = None"
    and frame0: "\<And>a. a \<notin> set asn \<Longrightarrow> cells (mappings g) a = cells st0 a"
    and below: "\<And>a. cells (mappings g) a \<noteq> None \<Longrightarrow> a < next_free (mappings g)"
  shows "\<exists>st'. assign_path key pnew g
            = Inr (g\<lparr>paths := AList.update key pnew (paths g), mappings := st'\<rparr>)
     \<and> store_wf (AList.update key pnew (paths g)) st'"
proof (cases "map_of (paths g) key")
  case None
  then have "lookup_default key default_path (paths g) = default_path"
    by (simp add: lookup_default_def)
  then have run: "assign_path key pnew g
      = Inr (g\<lparr>paths := AList.update key pnew (paths g), mappings := mappings g\<rparr>)"
    by (simp add: assign_path_def destroy_default_path)
  have "store_wf (AList.update key pnew (paths g)) (mappings g)"
  proof (rule store_wf_replace[OF wf, where as = "[]" and as' = asn])
    show "case map_of (paths g) key of None \<Rightarrow> [] = ([] :: addr list) | Some p \<Rightarrow> path_ok st0 key p []"
      using None by simp
    show "path_ok (mappings g) key pnew asn" using okn .
    show "cells (mappings g) a = cells st0 a" if "a \<notin> set asn" for a
      using frame0[OF that] .
    show "cells st0 a = None" if "a \<in> set asn" for a
      using fresh[OF that] .
    show "a < next_free (mappings g)" if "cells (mappings g) a \<noteq> None" for a
      using below[OF that] .
  qed simp
  then show ?thesis using run by blast
next
  case (Some pold)
  then have look: "lookup_default key default_path (paths g) = pold"
    by (simp add: lookup_default_def)
  obtain as where as: "path_ok st0 key pold as"
    using store_wf_path[OF wf Some] by blast
  have disj: "a \<notin> set asn" if "a \<in> set as" for a
    using path_ok_live[OF as that] fresh[of a] by auto
  have "path_ok (mappings g) key pold as = path_ok st0 key pold as"
    by (rule path_ok_frame) (use disj frame0 in auto)
  then have as': "path_ok (mappings g) key pold as"
    using as by simp
  define st' where
    "st' = (mappings g)\<lparr>cells := (\<lambda>a. if a \<in> set as then None else cells (mappings g) a)\<rparr>"
  have "destroy_path_t pold (mappings g) = Inr st'"
    unfolding st'_def using as' below by (rule destroy_path_t_ok)
  then have run: "assign_path key pnew g
      = Inr (g\<lparr>paths := AList.update key pnew (paths g), mappings := st'\<rparr>)"
    by (simp add: assign_path_def look)
  have "path_ok st' key pnew asn = path_ok (mappings g) key pnew asn"
    by (rule path_ok_frame) (use disj in \<open>auto simp add: st'_def\<close>)
  then have okn': "path_ok st' key pnew asn"
    using okn by simp
  have "store_wf (AList.update key pnew (paths g)) st'"
  proof (rule store_wf_replace[OF wf, where as = as and as' = asn])
    show "case map_of (paths g) key of None \<Rightarrow> as = [] | Some p \<Rightarrow> path_ok st0 key p as"
      using Some as by simp
    show "path_ok st' key pnew asn" using okn' .
    show "cells st' a = cells st0 a" if "a \<notin> set as" "a \<notin> set asn" for a
      using that frame0[of a] by (simp add: st'_def)
    show "cells st' a = None" if "a \<in> set as" for a
      using that by (simp add: st'_def)
    show "cells st0 a = None" if "a \<in> set asn" for a
      using fresh[OF that] .
    show "a < next_free st'" if "cells st' a \<noteq> None" for a
      using that below[of a] by (auto simp add: st'_def split: if_splits)
  qed
  then show ?thesis using run by blast
qed

lemma create_path_handle_wf:
  assumes wf: "paths_wf g" and run: "create_path_handle name g = Inr (g', path)"
  shows "paths_wf g'"
proof -
  define g1 where "g1 = g\<lparr>path_id := AList.update name (next_path_id g) (path_id g)\<rparr>"
  have swf: "store_wf (paths g1) (mappings g1)"
    using wf by (simp add: paths_wf_def g1_def)
  have "\<exists>st'. assign_path (next_path_id g) (new_path name (next_path_id g)) g1
            = Inr (g1\<lparr>paths := AList.update (next_path_id g) (new_path name (next_path_id g)) (paths g1),
                     mappings := st'\<rparr>)
     \<and> store_wf (AList.update (next_path_id g) (new_path name (next_path_id g)) (paths g1)) st'"
  proof (rule assign_path_wf[OF swf, where asn = "[]"])
    show "path_ok (mappings g1) (next_path_id g) (new_path name (next_path_id g)) []"
      by (simp add: path_ok_def new_path_def default_path_def)
    show "a < next_free (mappings g1)" if "cells (mappings g1) a \<noteq> None" for a
      using store_wf_below[OF swf that] .
  qed simp_all
  then obtain st' where
    a: "assign_path (next_path_id g) (new_path name (next_path_id g)) g1
            = Inr (g1\<lparr>paths := AList.update (next_path_id g) (new_path name (next_path_id g)) (paths g1),
                     mappings := st'\<rparr>)"
    and wf': "store_wf (AList.update (next_path_id g) (new_path name (next_path_id g)) (paths g1)) st'"
    by blast
  have npid: "next_path_id g1 = next_path_id g"
    by (simp add: g1_def)
  from run obtain g2 where
    g2: "assign_path (next_path_id g1) (new_path name (next_path_id g1)) g1 = Inr g2"
    and g': "g' = g2\<lparr>next_path_id := next_path_id g2 + 1\<rparr>"
    unfolding create_path_handle_def Let_def g1_def[symmetric] and_then_eq_Inr by auto
  have "g2 = g1\<lparr>paths := AList.update (next_path_id g) (new_path name (next_path_id g)) (paths g1),
                  mappings := st'\<rparr>"
    using g2 a by (simp add: npid)
  then have "paths g2 = AList.update (next_path_id g) (new_path name (next_path_id g)) (paths g1)"
    "mappings g2 = st'"
    by simp_all
  then show ?thesis
    using wf' by (simp add: paths_wf_def g')
qed

lemma append_occurrence_wf:
  assumes wf: "paths_wf g" and live: "map_of (paths g) path \<noteq> None"
    and run: "append_occurrence path h g = Inr (g', occ)"
  shows "paths_wf g'"
proof -
  have swf: "store_wf (paths g) (mappings g)"
    using wf by (simp add: paths_wf_def)
  obtain p where p: "map_of (paths g) path = Some p"
    using live by auto
  then have look: "lookup_default path default_path (paths g) = p"
    by (simp add: lookup_default_def)
  obtain as where as: "path_ok (mappings g) path p as"
    using store_wf_path[OF swf p] by blast
  have below: "a < next_free (mappings g)" if "cells (mappings g) a \<noteq> None" for a
    using store_wf_below[OF swf that] .
  have fresh: "cells (mappings g) (next_free (mappings g)) = None"
    using below[of "next_free (mappings g)"]
    by (cases "cells (mappings g) (next_free (mappings g))") auto
  from push_back_ok[OF as below, of h] obtain p' st' where
    pb: "push_back h p (mappings g) = Inr (next_free (mappings g), p', st')"
    and ok': "path_ok st' path p' (as @ [next_free (mappings g)])"
    and nf: "next_free st' = Suc (next_free (mappings g))"
    and frame: "\<And>a. a \<notin> set as \<Longrightarrow> a \<noteq> next_free (mappings g) \<Longrightarrow>
           cells st' a = cells (mappings g) a"
    by blast
  have "store_wf (AList.update path p' (paths g)) st'"
  proof (rule store_wf_replace[OF swf, where as = as and as' = "as @ [next_free (mappings g)]"])
    show "case map_of (paths g) path of None \<Rightarrow> as = [] | Some p \<Rightarrow> path_ok (mappings g) path p as"
      using p as by simp
    show "path_ok st' path p' (as @ [next_free (mappings g)])" using ok' .
    show "cells st' a = cells (mappings g) a"
      if "a \<notin> set as" "a \<notin> set (as @ [next_free (mappings g)])" for a
      using that frame[of a] by auto
    show "cells st' a = None" if "a \<in> set as" "a \<notin> set (as @ [next_free (mappings g)])" for a
      using that by auto
    show "cells (mappings g) a = None" if "a \<in> set (as @ [next_free (mappings g)])" "a \<notin> set as" for a
      using that fresh by auto
    show "a < next_free st'" if l: "cells st' a \<noteq> None" for a
    proof (cases "a \<in> set (as @ [next_free (mappings g)])")
      case True
      then show ?thesis
        using nf path_ok_live[OF as, of a] below[of a] by auto
    next
      case False
      then have "cells st' a = cells (mappings g) a"
        using frame[of a] by auto
      then show ?thesis
        using l below[of a] nf by simp
    qed
  qed
  moreover have "paths g' = AList.update path p' (paths g)" "mappings g' = st'"
    using run pb by (auto simp add: append_occurrence_def look)
  ultimately show ?thesis
    by (simp add: paths_wf_def)
qed

lemma destroy_path_wf:
  assumes wf: "paths_wf g" and run: "destroy_path path g = Inr g'"
  shows "paths_wf g'"
proof -
  have swf: "store_wf (paths g) (mappings g)"
    using wf by (simp add: paths_wf_def)
  from run obtain steps where "occurrences_in_path g path = Inr steps"
    unfolding destroy_path_def and_then_eq_Inr by blast
  then obtain p where p: "map_of (paths g) path = Some p"
    by (auto simp add: occurrences_in_path_def split: option.splits)
  then have look: "lookup_default path default_path (paths g) = p"
    by (simp add: lookup_default_def)
  obtain as where as: "path_ok (mappings g) path p as"
    using store_wf_path[OF swf p] by blast
  have below: "a < next_free (mappings g)" if "cells (mappings g) a \<noteq> None" for a
    using store_wf_below[OF swf that] .
  define st' where
    "st' = (mappings g)\<lparr>cells := (\<lambda>a. if a \<in> set as then None else cells (mappings g) a)\<rparr>"
  have d: "destroy_path_t p (mappings g) = Inr st'"
    unfolding st'_def using as below by (rule destroy_path_t_ok)
  have "store_wf (AList.delete path (paths g)) st'"
  proof (rule store_wf_delete[OF swf, where as = as])
    show "case map_of (paths g) path of None \<Rightarrow> as = [] | Some p \<Rightarrow> path_ok (mappings g) path p as"
      using p as by simp
    show "cells st' a = cells (mappings g) a" if "a \<notin> set as" for a
      using that by (simp add: st'_def)
    show "cells st' a = None" if "a \<in> set as" for a
      using that by (simp add: st'_def)
    show "a < next_free st'" if "cells st' a \<noteq> None" for a
      using that below[of a] by (auto simp add: st'_def split: if_splits)
  qed
  moreover have "paths g' = AList.delete path (paths g)" "mappings g' = st'"
    using run d by (auto simp add: destroy_path_def Let_def look and_then_eq_Inr)
  ultimately show ?thesis
    by (simp add: paths_wf_def)
qed

text \<open>
  The loop of \<open>path_t::deserialize\<close> builds the list of a path object that is not in the
  table yet: its records are new, and the records that were there are as they were.
\<close>

lemma read_steps_local:
  assumes "path_ok st k p as" and "\<And>a. cells st a \<noteq> None \<Longrightarrow> a < next_free st"
    and "read_steps uninit n s p st = Inr (p', st', s')"
  shows "\<exists>as'. path_ok st' k p' (as @ as')
     \<and> (\<forall>a. cells st' a \<noteq> None \<longrightarrow> a < next_free st')
     \<and> (\<forall>a. a \<notin> set as \<longrightarrow> a < next_free st \<longrightarrow> cells st' a = cells st a)
     \<and> (\<forall>a \<in> set as'. next_free st \<le> a)
     \<and> (\<forall>a. next_free st \<le> a \<longrightarrow> cells st' a \<noteq> None \<longrightarrow> a \<in> set as')
     \<and> p_name p' = p_name p"
  using assms
proof (induction n arbitrary: s p st as)
  case 0
  have eq: "p' = p" "st' = st"
    using 0(3) by simp_all
  have "cells st a = None" if "next_free st \<le> a" for a
    using 0(2)[of a] that by (cases "cells st a") auto
  then show ?case
    using 0(1,2) by (intro exI[of _ "[]"]) (simp add: eq)
next
  case (Suc n)
  obtain step s1 where r: "read_int64 uninit s = (step, s1)"
    by (cases "read_int64 uninit s")
  from push_back_ok[OF Suc.prems(1,2), of step] obtain p1 st1 where
    pb: "push_back step p st = Inr (next_free st, p1, st1)"
    and ok1: "path_ok st1 k p1 (as @ [next_free st])"
    and nf1: "next_free st1 = Suc (next_free st)"
    and name1: "p_name p1 = p_name p"
    and frame1: "\<And>a. a \<notin> set as \<Longrightarrow> a \<noteq> next_free st \<Longrightarrow> cells st1 a = cells st a"
    by blast
  have below1: "a < next_free st1" if l: "cells st1 a \<noteq> None" for a
  proof (cases "a \<in> set as \<or> a = next_free st")
    case True
    then show ?thesis
      using nf1 path_ok_live[OF Suc.prems(1), of a] Suc.prems(2)[of a] by auto
  next
    case False
    then have "cells st1 a = cells st a" using frame1[of a] by simp
    then show ?thesis using l Suc.prems(2)[of a] nf1 by simp
  qed
  have rest: "read_steps uninit n s1 p1 st1 = Inr (p', st', s')"
    using Suc.prems(3) r pb by simp
  from Suc.IH[OF ok1 below1 rest] obtain as' where
    ok': "path_ok st' k p' ((as @ [next_free st]) @ as')"
    and below': "\<And>a. cells st' a \<noteq> None \<Longrightarrow> a < next_free st'"
    and frame': "\<And>a. a \<notin> set (as @ [next_free st]) \<Longrightarrow> a < next_free st1 \<Longrightarrow>
           cells st' a = cells st1 a"
    and new': "\<And>a. a \<in> set as' \<Longrightarrow> next_free st1 \<le> a"
    and all': "\<And>a. next_free st1 \<le> a \<Longrightarrow> cells st' a \<noteq> None \<Longrightarrow> a \<in> set as'"
    and name': "p_name p' = p_name p1"
    by blast
  show ?case
  proof (intro exI[of _ "next_free st # as'"] conjI allI impI ballI)
    show "path_ok st' k p' (as @ next_free st # as')"
      using ok' by simp
    show "a < next_free st'" if "cells st' a \<noteq> None" for a
      using below'[OF that] .
    show "cells st' a = cells st a" if "a \<notin> set as" "a < next_free st" for a
      using that frame'[of a] frame1[of a] nf1 by auto
    show "next_free st \<le> a" if "a \<in> set (next_free st # as')" for a
      using that new'[of a] nf1 by auto
    show "a \<in> set (next_free st # as')" if "next_free st \<le> a" "cells st' a \<noteq> None" for a
      using that all'[of a] nf1 by (cases "a = next_free st") auto
    show "p_name p' = p_name p"
      using name' name1 by simp
  qed
qed

lemma read_paths_wf:
  assumes "paths_wf g" and "read_paths uninit n s g = Inr (g', s')"
  shows "paths_wf g'"
  using assms
proof (induction n arbitrary: s g)
  case 0
  then show ?case by simp
next
  case (Suc n)
  have swf: "store_wf (paths g) (mappings g)"
    using Suc.prems(1) by (simp add: paths_wf_def)
  have below: "a < next_free (mappings g)" if "cells (mappings g) a \<noteq> None" for a
    using store_wf_below[OF swf that] .
  from Suc.prems(2) obtain p st s1 g1 where
    pd: "path_deserialize uninit s (mappings g) = Inr (p, st, s1)"
    and ap: "assign_path (p_path_id p) p
          (g\<lparr>mappings := st, path_id := AList.update (p_name p) (p_path_id p) (path_id g)\<rparr>) = Inr g1"
    and rest: "read_paths uninit n s1 g1 = Inr (g', s')"
    by (auto simp add: and_then_eq_Inr)
  obtain pid s1a where r1: "read_int64 uninit s = (pid, s1a)"
    by (cases "read_int64 uninit s")
  obtain name_size s2 where r2: "read_int64 uninit s1a = (name_size, s2)"
    by (cases "read_int64 uninit s1a")
  obtain name s3 where r3: "read_each (resize (unat name_size) (CHR 0x00) []) s2 = (name, s3)"
    by (cases "read_each (resize (unat name_size) (CHR 0x00) []) s2")
  obtain num_mappings s4 where r4: "read_int64 uninit s3 = (num_mappings, s4)"
    by (cases "read_int64 uninit s3")
  define p0 where "p0 = default_path\<lparr>p_path_id := pid, p_name := name, p_count := 0\<rparr>"
  have rs: "read_steps uninit (unat num_mappings) s4 p0 (mappings g) = Inr (p, st, s1)"
    using pd by (simp add: path_deserialize_def r1 r2 r3 r4 p0_def)
  have ok0: "path_ok (mappings g) pid p0 []"
    by (simp add: path_ok_def p0_def default_path_def)
  from read_steps_local[OF ok0 below rs] obtain asn where
    okn: "path_ok st pid p asn"
    and belown: "\<And>a. cells st a \<noteq> None \<Longrightarrow> a < next_free st"
    and framen: "\<And>a. a < next_free (mappings g) \<Longrightarrow> cells st a = cells (mappings g) a"
    and newn: "\<And>a. a \<in> set asn \<Longrightarrow> next_free (mappings g) \<le> a"
    and alln: "\<And>a. next_free (mappings g) \<le> a \<Longrightarrow> cells st a \<noteq> None \<Longrightarrow> a \<in> set asn"
    by auto
  have pid: "p_path_id p = pid"
    using okn by (simp add: path_ok_def)
  define g0 where
    "g0 = g\<lparr>mappings := st, path_id := AList.update (p_name p) (p_path_id p) (path_id g)\<rparr>"
  have "\<exists>st'. assign_path pid p g0 = Inr (g0\<lparr>paths := AList.update pid p (paths g0), mappings := st'\<rparr>)
     \<and> store_wf (AList.update pid p (paths g0)) st'"
  proof (rule assign_path_wf[where ?st0.0 = "mappings g" and asn = asn])
    show "store_wf (paths g0) (mappings g)"
      using swf by (simp add: g0_def)
    show "path_ok (mappings g0) pid p asn"
      using okn by (simp add: g0_def)
    show "cells (mappings g) a = None" if "a \<in> set asn" for a
      using newn[OF that] below[of a] by (cases "cells (mappings g) a") auto
    show "cells (mappings g0) a = cells (mappings g) a" if "a \<notin> set asn" for a
    proof (cases "a < next_free (mappings g)")
      case True
      then show ?thesis using framen[of a] by (simp add: g0_def)
    next
      case False
      then have "cells (mappings g) a = None"
        using below[of a] by (cases "cells (mappings g) a") auto
      moreover have "cells st a = None"
        using alln[of a] that False by (cases "cells st a") auto
      ultimately show ?thesis by (simp add: g0_def)
    qed
    show "a < next_free (mappings g0)" if "cells (mappings g0) a \<noteq> None" for a
      using that belown[of a] by (simp add: g0_def)
  qed
  then obtain st' where
    "assign_path pid p g0 = Inr (g0\<lparr>paths := AList.update pid p (paths g0), mappings := st'\<rparr>)"
    and wf': "store_wf (AList.update pid p (paths g0)) st'"
    by blast
  then have "g1 = g0\<lparr>paths := AList.update pid p (paths g0), mappings := st'\<rparr>"
    using ap by (simp add: pid g0_def)
  then have "paths_wf g1"
    using wf' by (simp add: paths_wf_def)
  then show ?case
    using Suc.IH rest by blast
qed

lemma deserialize_wf:
  assumes wf: "paths_wf g" and order: "\<forall>ps. mset (path_order ps) = mset ps"
    and run: "deserialize uninit path_order input g = Inr g'"
  shows "paths_wf g'"
proof -
  from run obtain g0 where c: "clear path_order g = Inr g0"
    unfolding deserialize_def and_then_eq_Inr by blast
  have wf0: "paths_wf g0"
    using clear_wf[OF wf _ c] order by simp
  obtain max_id_in s1 where r1:
    "read_int64 uninit \<lparr>in_chars = input, in_fail = False, in_reads = 0\<rparr> = (max_id_in, s1)"
    by (cases "read_int64 uninit \<lparr>in_chars = input, in_fail = False, in_reads = 0\<rparr>")
  obtain min_id_in s2 where r2: "read_int64 uninit s1 = (min_id_in, s2)"
    by (cases "read_int64 uninit s1")
  obtain next_path_id_in s3 where r3: "read_int64 uninit s2 = (next_path_id_in, s3)"
    by (cases "read_int64 uninit s2")
  obtain num_nodes s4 where r4: "read_int64 uninit s3 = (num_nodes, s4)"
    by (cases "read_int64 uninit s3")
  obtain gr s5 where r5: "read_nodes uninit (unat num_nodes) s4 (graph g0) = (gr, s5)"
    by (cases "read_nodes uninit (unat num_nodes) s4 (graph g0)")
  obtain num_paths s6 where r6: "read_int64 uninit s5 = (num_paths, s6)"
    by (cases "read_int64 uninit s5")
  define g0' where "g0' = g0\<lparr>max_id := max_id_in, min_id := min_id_in,
               next_path_id := next_path_id_in, graph := gr\<rparr>"
  from run obtain g1 s7 occs where
    rp: "read_paths uninit (unat num_paths) s6 g0' = Inr (g1, s7)"
    and g': "g' = g1\<lparr>occurrences := occs\<rparr>"
    by (auto simp add: deserialize_def c r1 r2 r3 r4 r5 r6 g0'_def and_then_eq_Inr)
  have "paths_wf g0'"
    using wf0 by (simp add: paths_wf_def g0'_def)
  then have "paths_wf g1"
    using read_paths_wf rp by blast
  then show ?thesis
    by (simp add: paths_wf_def g')
qed

lemma proper_paths_wf:
  assumes "proper g"
  shows "paths_wf g"
  using assms
proof (induction rule: proper.induct)
  case p_new_graph
  show ?case by (simp add: paths_wf_def store_wf_def empty_graph_def)
next
  case (p_create_handle g s node_id)
  then show ?case by (simp add: paths_wf_def paths_create_handle)
next
  case (p_create_handle_next g s)
  then show ?case by (simp add: paths_wf_def create_handle_next_def paths_create_handle)
next
  case (p_create_edge g left right)
  then show ?case by (simp add: paths_wf_def paths_create_edge)
next
  case (p_destroy_handle g h)
  then show ?case by (simp add: paths_wf_def destroy_handle_def Let_def)
next
  case (p_destroy_edge g left right)
  then show ?case by (simp add: paths_wf_def destroy_edge_def Let_def)
next
  case (p_apply_orientation g h g' h')
  then show ?case using apply_orientation_wf by blast
next
  case (p_divide_handle g h offsets g' parts)
  then show ?case using divide_handle_wf by blast
next
  case (p_clear g path_order g')
  then show ?case using clear_wf by blast
next
  case (p_create_path_handle g name g' path)
  then show ?case using create_path_handle_wf by blast
next
  case (p_append_occurrence g path h g' occ)
  then show ?case using append_occurrence_wf by blast
next
  case (p_destroy_path g path g')
  then show ?case using destroy_path_wf by blast
next
  case (p_deserialize g path_order uninit input g')
  then show ?case using deserialize_wf by blast
qed

section \<open>The step count is the length of the list\<close>

lemma stray_append:
  "append_occurrence 7 (get_handle 1 False) (fst (create_handle ''AC'' 1 empty_graph))
     = Inr (stray_step, 7, 0)"
  by (simp add: append_occurrence_def push_back_def new_mapping_def stray_step_def node_eval
      handle_eval default_path_def fun_eq_iff)

lemma divide_ac:
  assumes gr: "graph g = [(1, \<lparr>sequence = ''AC'', left_edges = [], right_edges = []\<rparr>)]"
    and ids: "max_id g = 1" "min_id g = 1"
    and g5: "g5 = g\<lparr>graph :=
       [(1, \<lparr>sequence = ''A'', left_edges = [], right_edges = [get_handle 2 False]\<rparr>),
        (2, \<lparr>sequence = ''C'', left_edges = [get_handle 1 True], right_edges = []\<rparr>)],
      max_id := 2, min_id := 1\<rparr>"
    and re: "(case map_of (occurrences g) 1 of
            None \<Rightarrow> Inr g5
          | Some bucket \<Rightarrow> rehome_steps [get_handle 1 False, get_handle 2 False] bucket g5) = Inr g6"
  shows "divide_handle (get_handle 1 False) [1] g
     = Inr (g6, [get_handle 1 False, get_handle 2 False])"
proof -
  have fw: "forward (get_handle 1 False) = get_handle 1 False" "\<not> get_is_reverse (get_handle 1 False)"
    "get_id (get_handle 1 False) = 1" "get_id (get_handle 2 False) = 2"
    "get_id (get_handle 1 True) = 1" "get_is_reverse (get_handle 1 True)"
    by (simp_all add: handle_eval)
  define g1 where "g1 = g\<lparr>graph :=
       [(1, \<lparr>sequence = ''AC'', left_edges = [], right_edges = []\<rparr>),
        (2, \<lparr>sequence = ''C'', left_edges = [], right_edges = []\<rparr>)],
      max_id := 2, min_id := 1\<rparr>"
  have len: "get_length g (get_handle 1 False) = Inr 2"
    by (simp add: get_length_def fw gr)
  have fo: "[1] = (if get_is_reverse (get_handle 1 False) then map (\<lambda>off. size_sub 2 off) [1] else [1])"
    by (simp add: fw)
  have "divvy 1 2 [1] g [get_handle 1 False] = Inr (g1, [get_handle 1 False, get_handle 2 False])"
    by (simp add: g1_def gr ids size_sub_def substr_def node_eval)
  then have dv: "divvy (get_id (get_handle 1 False)) 2 [1] g [forward (get_handle 1 False)]
      = Inr (g1, [get_handle 1 False, get_handle 2 False])"
    by (simp only: fw)
  let ?gr2 = "[(1, \<lparr>sequence = ''A'', left_edges = [], right_edges = []\<rparr>),
         (2, \<lparr>sequence = ''C'', left_edges = [], right_edges = []\<rparr>)]"
  have g2: "?gr2 = modify (get_id (get_handle 1 False)) (new_node [])
        (\<lambda>n. n\<lparr>sequence := take (hd [1]) (sequence n)\<rparr>) (graph g1)"
    by (simp add: g1_def modify_def lookup_default_def fw)
  have g3: "?gr2 = move_right_edges (get_id (get_handle 1 False))
        (get_id (last [get_handle 1 False, get_handle 2 False])) ?gr2"
    by (simp add: move_right_edges_def modify_def lookup_default_def touch_def Let_def fw)
  have g4: "?gr2 = retarget_back_references (forward (get_handle 1 False))
        (last [get_handle 1 False, get_handle 2 False]) ?gr2"
    by (simp add: retarget_back_references_def lookup_default_def fw)
  have "chain_segments [get_handle 1 False, get_handle 2 False] (g1\<lparr>graph := ?gr2\<rparr>) = g5"
    by (simp add: chain_segments_def g1_def g5 node_eval handle_eval)
  then have c5: "g5 = chain_segments [get_handle 1 False, get_handle 2 False] (g1\<lparr>graph := ?gr2\<rparr>)"
    by simp
  have occ: "(case map_of (occurrences g5) (get_id (get_handle 1 False)) of
            None \<Rightarrow> Inr g5
          | Some bucket \<Rightarrow> rehome_steps [get_handle 1 False, get_handle 2 False] bucket g5) = Inr g6"
    using re by (simp add: fw g5)
  show ?thesis
    using divide_handle_steps[OF len _ fo dv g2 g3 g4 c5 occ] fw(2)
    by simp
qed

lemma stray_divide:
  "divide_handle (get_handle 1 False) [1] stray_step
     = Inr (stray_divided, [get_handle 1 False, get_handle 2 False])"
proof (rule divide_ac)
  show "graph stray_step = [(1, \<lparr>sequence = ''AC'', left_edges = [], right_edges = []\<rparr>)]"
    "max_id stray_step = 1" "min_id stray_step = 1"
    by (simp_all add: stray_step_def)
  show "stray_step\<lparr>graph :=
       [(1, \<lparr>sequence = ''A'', left_edges = [], right_edges = [get_handle 2 False]\<rparr>),
        (2, \<lparr>sequence = ''C'', left_edges = [get_handle 1 True], right_edges = []\<rparr>)],
      max_id := 2, min_id := 1\<rparr> = stray_step\<lparr>graph :=
       [(1, \<lparr>sequence = ''A'', left_edges = [], right_edges = [get_handle 2 False]\<rparr>),
        (2, \<lparr>sequence = ''C'', left_edges = [get_handle 1 True], right_edges = []\<rparr>)],
      max_id := 2, min_id := 1\<rparr>"
    by simp
  have ids: "get_id (get_handle 2 False) = 2" "\<not> get_is_reverse (get_handle 1 False)"
    by (simp_all add: handle_eval)
  show "(case map_of (occurrences stray_step) 1 of
            None \<Rightarrow> Inr (stray_step\<lparr>graph :=
       [(1, \<lparr>sequence = ''A'', left_edges = [], right_edges = [get_handle 2 False]\<rparr>),
        (2, \<lparr>sequence = ''C'', left_edges = [get_handle 1 True], right_edges = []\<rparr>)],
      max_id := 2, min_id := 1\<rparr>)
          | Some bucket \<Rightarrow> rehome_steps [get_handle 1 False, get_handle 2 False] bucket
              (stray_step\<lparr>graph :=
       [(1, \<lparr>sequence = ''A'', left_edges = [], right_edges = [get_handle 2 False]\<rparr>),
        (2, \<lparr>sequence = ''C'', left_edges = [get_handle 1 True], right_edges = []\<rparr>)],
      max_id := 2, min_id := 1\<rparr>)) = Inr stray_divided"
    by (simp add: stray_step_def stray_divided_def rehome_step_def deref_def ids
        insert_after_def new_mapping_def update_cell_def lookup_default_def default_path_def
        modify_def empty_graph_def fun_eq_iff)
qed

lemma two_steps_proper: "proper two_steps"
proof -
  define g1 where "g1 = fst (create_handle ''AC'' 1 empty_graph)"
  define gA where "gA = empty_graph\<lparr>graph := [(1, \<lparr>sequence = ''AC'', left_edges = [], right_edges = []\<rparr>)],
      max_id := 1, min_id := 1, next_path_id := 2, path_id := [(''x'', 1)],
      paths := [(1, \<lparr>p_head = None, p_tail = None, p_path_id = 1, p_count = 0, p_name = ''x''\<rparr>)]\<rparr>"
  define gB where "gB = empty_graph\<lparr>graph := [(1, \<lparr>sequence = ''AC'', left_edges = [], right_edges = []\<rparr>)],
      max_id := 1, min_id := 1, next_path_id := 2, path_id := [(''x'', 1)],
      paths := [(1, \<lparr>p_head = Some 0, p_tail = Some 0, p_path_id = 1, p_count = 1, p_name = ''x''\<rparr>)],
      occurrences := [(1, [0])],
      mappings := \<lparr>cells = (\<lambda>a.
           if a = 0 then Some \<lparr>m_handle = get_handle 1 False, m_path_id = 1,
                                m_prev = None, m_next = None\<rparr>
           else None),
         next_free = 1\<rparr>\<rparr>"
  have ids: "get_id (get_handle 1 False) = 1" "get_id (get_handle 1 True) = 1"
    by (simp_all add: handle_eval)
  have a: "create_path_handle ''x'' g1 = Inr (gA, 1)"
    by (simp add: create_path_handle_def assign_path_def destroy_path_t_def lookup_default_def
        default_path_def new_path_def g1_def gA_def node_eval)
  have b: "append_occurrence 1 (get_handle 1 False) gA = Inr (gB, 1, 0)"
    by (simp add: append_occurrence_def push_back_def new_mapping_def lookup_default_def
        modify_def gA_def gB_def empty_graph_def ids fun_eq_iff)
  have c: "append_occurrence 1 (get_handle 1 True) gB = Inr (two_steps, 1, 1)"
    by (simp add: append_occurrence_def push_back_def new_mapping_def update_cell_def
        lookup_default_def modify_def gB_def two_steps_def empty_graph_def ids fun_eq_iff)
  have "proper g1"
    unfolding g1_def by (intro p_create_handle p_new_graph)
  then have "proper gA"
    using a by (rule p_create_path_handle)
  then have "proper gB"
    using _ b by (rule p_append_occurrence) (simp add: gA_def)
  then show ?thesis
    using _ c by (rule p_append_occurrence) (simp add: gB_def)
qed

lemma two_steps_divide:
  "divide_handle (get_handle 1 False) [1] two_steps
     = Inr (four_steps, [get_handle 1 False, get_handle 2 False])"
proof (rule divide_ac)
  show "graph two_steps = [(1, \<lparr>sequence = ''AC'', left_edges = [], right_edges = []\<rparr>)]"
    "max_id two_steps = 1" "min_id two_steps = 1"
    by (simp_all add: two_steps_def)
  show "two_steps\<lparr>graph :=
       [(1, \<lparr>sequence = ''A'', left_edges = [], right_edges = [get_handle 2 False]\<rparr>),
        (2, \<lparr>sequence = ''C'', left_edges = [get_handle 1 True], right_edges = []\<rparr>)],
      max_id := 2, min_id := 1\<rparr> = two_steps\<lparr>graph :=
       [(1, \<lparr>sequence = ''A'', left_edges = [], right_edges = [get_handle 2 False]\<rparr>),
        (2, \<lparr>sequence = ''C'', left_edges = [get_handle 1 True], right_edges = []\<rparr>)],
      max_id := 2, min_id := 1\<rparr>"
    by simp
  have ids: "get_id (get_handle 2 False) = 2" "\<not> get_is_reverse (get_handle 1 False)"
    "get_is_reverse (get_handle 1 True)" "flip (get_handle 2 False) = get_handle 2 True"
    by (simp_all add: handle_eval)
  show "(case map_of (occurrences two_steps) 1 of
            None \<Rightarrow> Inr (two_steps\<lparr>graph :=
       [(1, \<lparr>sequence = ''A'', left_edges = [], right_edges = [get_handle 2 False]\<rparr>),
        (2, \<lparr>sequence = ''C'', left_edges = [get_handle 1 True], right_edges = []\<rparr>)],
      max_id := 2, min_id := 1\<rparr>)
          | Some bucket \<Rightarrow> rehome_steps [get_handle 1 False, get_handle 2 False] bucket
              (two_steps\<lparr>graph :=
       [(1, \<lparr>sequence = ''A'', left_edges = [], right_edges = [get_handle 2 False]\<rparr>),
        (2, \<lparr>sequence = ''C'', left_edges = [get_handle 1 True], right_edges = []\<rparr>)],
      max_id := 2, min_id := 1\<rparr>)) = Inr four_steps"
    by (simp add: two_steps_def four_steps_def rehome_step_def deref_def ids
        insert_after_def new_mapping_def update_cell_def lookup_default_def default_path_def
        modify_def empty_graph_def fun_eq_iff)
qed

end
